theory Spec2Isabelle
  imports Complex_Main "HOL-Library.Multiset"
begin

section \<open>Text values\<close>

text \<open>
  A Python \<open>str\<close> is a sequence of Unicode code points; the patterns of the script test
  code points (the name pattern ranges over U+4E00..U+9FA5), so a text value is a list of
  code points. \<open>ascii\<close> turns an Isabelle string literal into such a list.
\<close>

type_synonym pystr = "nat list"

definition ascii :: "string \<Rightarrow> pystr" where
  "ascii s = map of_char s"

text \<open>
  \<open>\d\<close> in a \<open>str\<close> pattern, and \<open>int\<close>, accept every character of Unicode category Nd.
  These come in runs of ten consecutive code points with the values 0..9; \<open>nd_starts\<close> lists
  the first code point of each run (Unicode 14.0, the table of CPython 3.11).
\<close>

definition nd_starts :: "nat list" where
  "nd_starts = [48, 1632, 1776, 1984, 2406, 2534, 2662, 2790, 2918, 3046, 3174, 3302, 3430,
     3558, 3664, 3792, 3872, 4160, 4240, 6112, 6160, 6470, 6608, 6784, 6800, 6992, 7088, 7232,
     7248, 42528, 43216, 43264, 43472, 43504, 43600, 44016, 65296, 66720, 68912, 69734, 69872,
     69942, 70096, 70384, 70736, 70864, 71248, 71360, 71472, 71904, 72016, 72784, 73040, 73120,
     92768, 92864, 93008, 120782, 120792, 120802, 120812, 120822, 123200, 123632, 125264,
     130032]"

definition decimal_value :: "nat \<Rightarrow> nat option" where
  "decimal_value c =
     (case find (\<lambda>b. b \<le> c \<and> c < b + 10) nd_starts of
        None \<Rightarrow> None
      | Some b \<Rightarrow> Some (c - b))"

definition is_digit :: "nat \<Rightarrow> bool" where
  "is_digit c = (decimal_value c \<noteq> None)"

text \<open>The characters \<open>str.strip()\<close> removes: those for which \<open>str.isspace\<close> holds.\<close>

definition whitespace :: "nat list" where
  "whitespace = [9, 10, 11, 12, 13, 28, 29, 30, 31, 32, 133, 160, 5760, 8192, 8193, 8194, 8195,
     8196, 8197, 8198, 8199, 8200, 8201, 8202, 8232, 8233, 8239, 8287, 12288]"

definition py_isspace :: "nat \<Rightarrow> bool" where
  "py_isspace c = (c \<in> set whitespace)"

definition strip :: "pystr \<Rightarrow> pystr" where
  "strip s = rev (dropWhile py_isspace (rev (dropWhile py_isspace s)))"

section \<open>Regular expressions\<close>

text \<open>
  The fragment of \<open>re\<close> the script uses: character classes, concatenation, alternation and
  counted greedy repetition. \<open>rmatch r s\<close> lists, in the order in which the backtracking
  matcher tries them, the remainders of \<open>s\<close> after each way of matching \<open>r\<close> at the start
  of \<open>s\<close>; the first element is the match \<open>re.match\<close> reports.
\<close>

datatype re =
    Cls "nat \<Rightarrow> bool"
  | Seq re re
  | Alt re re
  | Rep nat nat re

fun rep_m :: "(pystr \<Rightarrow> pystr list) \<Rightarrow> nat \<Rightarrow> nat \<Rightarrow> pystr \<Rightarrow> pystr list" where
  "rep_m f m 0 s = (if m = 0 then [s] else [])"
| "rep_m f m (Suc n) s =
     concat (map (rep_m f (m - 1) n) (f s)) @ (if m = 0 then [s] else [])"

fun rmatch :: "re \<Rightarrow> pystr \<Rightarrow> pystr list" where
  "rmatch (Cls p) s = (case s of [] \<Rightarrow> [] | c # t \<Rightarrow> if p c then [t] else [])"
| "rmatch (Seq a b) s = concat (map (rmatch b) (rmatch a s))"
| "rmatch (Alt a b) s = rmatch a s @ rmatch b s"
| "rmatch (Rep m n r) s = rep_m (rmatch r) m n s"

text \<open>\<open>re.search\<close>: the first match at the leftmost position that has one.\<close>

fun re_search :: "re \<Rightarrow> pystr \<Rightarrow> pystr option" where
  "re_search r [] = (case rmatch r [] of [] \<Rightarrow> None | rest # _ \<Rightarrow> Some [])"
| "re_search r (c # t) =
     (case rmatch r (c # t) of
        [] \<Rightarrow> re_search r t
      | rest # _ \<Rightarrow> Some (take (length (c # t) - length rest) (c # t)))"

text \<open>\<open>re.fullmatch\<close>: some way of matching consumes the whole value.\<close>

definition re_fullmatch :: "re \<Rightarrow> pystr \<Rightarrow> bool" where
  "re_fullmatch r s = ([] \<in> set (rmatch r s))"

text \<open>Pattern syntax: a literal character, a range \<open>[a-b]\<close>, \<open>\d\<close>, and \<open>r{n}\<close>.\<close>

definition chr :: "char \<Rightarrow> re" where
  "chr c = Cls (\<lambda>x. x = of_char c)"

definition rng :: "char \<Rightarrow> char \<Rightarrow> re" where
  "rng a b = Cls (\<lambda>x. of_char a \<le> x \<and> x \<le> of_char b)"

definition digit :: re where
  "digit = Cls is_digit"

definition times :: "nat \<Rightarrow> re \<Rightarrow> re" where
  "times n r = Rep n n r"

fun seqs :: "re list \<Rightarrow> re" where
  "seqs [r] = r"
| "seqs (r # rs) = Seq r (seqs rs)"
| "seqs [] = Rep 0 0 digit"

section \<open>Field patterns\<close>

text \<open>\<open>1[3-9]\d{9}\<close>\<close>

definition phone_re :: re where
  "phone_re = seqs [chr CHR ''1'', rng CHR ''3'' CHR ''9'', times 9 digit]"

text \<open>
  \<^verbatim>\<open>def clean_phone(phone_str):
    if not phone_str or pd.isna(phone_str):
        return ''
    s = str(phone_str).strip()
    match = re.search(r'1[3-9]\d{9}', s)
    return match.group() if match else ''\<close>
  The argument is always a \<open>str\<close> here (the column is converted with \<open>astype(str)\<close>), so
  \<open>pd.isna\<close> is false and \<open>not phone_str\<close> means the empty string.
\<close>

definition clean_phone :: "pystr \<Rightarrow> pystr" where
  "clean_phone phone_str =
     (if phone_str = [] then []
      else (case re_search phone_re (strip phone_str) of
              Some m \<Rightarrow> m
            | None \<Rightarrow> []))"

text \<open>
  \<open>[1-9]\d{5}(19|20)\d{2}(0[1-9]|1[0-2])(0[1-9]|[12]\d|3[01])\d{3}\<close> followed by the
  class of the last character, which is \<open>[\dX]\<close> in \<open>clean_id\<close> and \<open>[\dXx]\<close> in
  \<open>detect_columns\<close>.
\<close>

definition one_of :: "string \<Rightarrow> re" where
  "one_of cs = Cls (\<lambda>x. x \<in> of_char ` set cs)"

definition digit_or :: "string \<Rightarrow> re" where
  "digit_or cs = Cls (\<lambda>x. is_digit x \<or> x \<in> of_char ` set cs)"

definition id_re :: "re \<Rightarrow> re" where
  "id_re lst =
     seqs [rng CHR ''1'' CHR ''9'', times 5 digit,
           Alt (Seq (chr CHR ''1'') (chr CHR ''9'')) (Seq (chr CHR ''2'') (chr CHR ''0'')),
           times 2 digit,
           Alt (Seq (chr CHR ''0'') (rng CHR ''1'' CHR ''9''))
               (Seq (chr CHR ''1'') (rng CHR ''0'' CHR ''2'')),
           Alt (Seq (chr CHR ''0'') (rng CHR ''1'' CHR ''9''))
               (Alt (Seq (one_of ''12'') digit) (Seq (chr CHR ''3'') (one_of ''01''))),
           times 3 digit, lst]"

text \<open>
  \<^verbatim>\<open>def clean_id(id_str):
    if not id_str or pd.isna(id_str):
        return ''
    s = str(id_str).strip().upper()
    match = re.search(r'[1-9]\d{5}(19|20)\d{2}(0[1-9]|1[0-2])(0[1-9]|[12]\d|3[01])\d{3}[\dX]', s)
    return match.group() if match else ''\<close>
  \<open>str.upper\<close> follows the case mapping of the Unicode database; it is the parameter
  \<open>upper\<close>.
\<close>

definition clean_id :: "(pystr \<Rightarrow> pystr) \<Rightarrow> pystr \<Rightarrow> pystr" where
  "clean_id upper id_str =
     (if id_str = [] then []
      else (case re_search (id_re (digit_or ''X'')) (upper (strip id_str)) of
              Some m \<Rightarrow> m
            | None \<Rightarrow> []))"

text \<open>The case mapping on ASCII letters, an instance of \<open>upper\<close> for ASCII text.\<close>

definition upper_ascii :: "pystr \<Rightarrow> pystr" where
  "upper_ascii s = map (\<lambda>c. if 97 \<le> c \<and> c \<le> 122 then c - 32 else c) s"

section \<open>Dates and ages\<close>

record datetime =
  year :: int
  month :: int
  day :: int

definition is_leap :: "int \<Rightarrow> bool" where
  "is_leap y = (y mod 4 = 0 \<and> (y mod 100 \<noteq> 0 \<or> y mod 400 = 0))"

definition days_in_month :: "int \<Rightarrow> int \<Rightarrow> int" where
  "days_in_month y m =
     (if m = 2 then (if is_leap y then 29 else 28)
      else if m = 4 \<or> m = 6 \<or> m = 9 \<or> m = 11 then 30 else 31)"

text \<open>The check of the \<open>date\<close> constructor, which raises \<open>ValueError\<close> when it fails.\<close>

definition valid_date :: "int \<Rightarrow> int \<Rightarrow> int \<Rightarrow> bool" where
  "valid_date y m d =
     (1 \<le> y \<and> y \<le> 9999 \<and> 1 \<le> m \<and> m \<le> 12 \<and> 1 \<le> d \<and> d \<le> days_in_month y m)"

text \<open>\<open>int\<close> on a run of decimal digits with optional surrounding whitespace.\<close>

definition number :: "pystr \<Rightarrow> int" where
  "number t = foldl (\<lambda>n c. 10 * n + int (the (decimal_value c))) 0 t"

definition py_int :: "pystr \<Rightarrow> int option" where
  "py_int s =
     (let t = strip s in
      if t \<noteq> [] \<and> list_all is_digit t then Some (number t) else None)"

text \<open>
  \<open>datetime.strptime(s, '%Y%m%d')\<close>. The format compiles to the pattern
  \<^verbatim>\<open>(?P<Y>\d\d\d\d)(?P<m>1[0-2]|0[1-9]|[1-9])(?P<d>3[0-1]|[1-2]\d|0[1-9]|[1-9]| [1-9])\<close>
  which is matched at the start of \<open>s\<close>; the call raises \<open>ValueError\<close> (here \<open>None\<close>) when
  there is no match, when the match leaves text unconverted, or when the three numbers are
  not a date.
\<close>

definition Y_re :: re where
  "Y_re = times 4 digit"

definition m_re :: re where
  "m_re = Alt (Seq (chr CHR ''1'') (rng CHR ''0'' CHR ''2''))
            (Alt (Seq (chr CHR ''0'') (rng CHR ''1'' CHR ''9'')) (rng CHR ''1'' CHR ''9''))"

definition d_re :: re where
  "d_re = Alt (Seq (chr CHR ''3'') (rng CHR ''0'' CHR ''1''))
            (Alt (Seq (rng CHR ''1'' CHR ''2'') digit)
            (Alt (Seq (chr CHR ''0'') (rng CHR ''1'' CHR ''9''))
            (Alt (rng CHR ''1'' CHR ''9'') (Seq (chr CHR '' '') (rng CHR ''1'' CHR ''9'')))))"

definition group :: "pystr \<Rightarrow> pystr \<Rightarrow> pystr" where
  "group s rest = take (length s - length rest) s"

definition strptime_Ymd :: "pystr \<Rightarrow> datetime option" where
  "strptime_Ymd s =
     (case [(group s r1, group r1 r2, group r2 r3, r3).
              r1 \<leftarrow> rmatch Y_re s, r2 \<leftarrow> rmatch m_re r1, r3 \<leftarrow> rmatch d_re r2] of
        [] \<Rightarrow> None
      | (gY, gm, gd, rest) # _ \<Rightarrow>
          if rest \<noteq> [] then None
          else (case (py_int gY, py_int gm, py_int gd) of
                  (Some y, Some m, Some d) \<Rightarrow>
                    if valid_date y m d then Some \<lparr>year = y, month = m, day = d\<rparr> else None
                | _ \<Rightarrow> None))"

text \<open>
  \<^verbatim>\<open>def calculate_age(id_card):
    if not id_card:
        return None
    try:
        birth_str = id_card[6:14]
        birth_date = datetime.strptime(birth_str, '%Y%m%d')
        today = datetime.now()
        age = today.year - birth_date.year - ((today.month, today.day) < (birth_date.month, birth_date.day))
        return age
    except:
        return None\<close>
  The current date is the parameter \<open>today\<close>.
\<close>

definition before :: "int \<times> int \<Rightarrow> int \<times> int \<Rightarrow> bool" where
  "before a b = (fst a < fst b \<or> (fst a = fst b \<and> snd a < snd b))"

definition calculate_age :: "datetime \<Rightarrow> pystr \<Rightarrow> int option" where
  "calculate_age today id_card =
     (if id_card = [] then None
      else (case strptime_Ymd (take 8 (drop 6 id_card)) of
              None \<Rightarrow> None
            | Some birth_date \<Rightarrow>
                Some (year today - year birth_date
                      - (if before (month today, day today) (month birth_date, day birth_date)
                         then 1 else 0))))"

text \<open>
  The five labels \<open>'23-60\<close>, \<open>'7-23\<close>, \<open>'0-7\<close>, \<open>'60\<close> and above, and unknown, in this order.
\<close>

datatype band = Adult | Youth | Child | Senior | Unknown

text \<open>
  \<^verbatim>\<open>def age_category(age):
    if age is None: return <Unknown>
    if age < 7: return <Child>
    elif age < 23: return <Youth>
    elif age < 60: return <Adult>
    else: return <Senior>\<close>
\<close>

definition age_category :: "int option \<Rightarrow> band" where
  "age_category age =
     (case age of
        None \<Rightarrow> Unknown
      | Some a \<Rightarrow> if a < 7 then Child else if a < 23 then Youth else if a < 60 then Adult
                  else Senior)"

section \<open>Records\<close>

text \<open>
  A cell of the input table is missing (\<open>None\<close>, the \<open>NaN\<close> of pandas) or carries the
  text that \<open>astype(str)\<close> gives its value. The rows of \<open>base_df\<close> have the five columns
  name, phone, ID number, age and age band.
\<close>

type_synonym cell = "pystr option"

record person =
  name :: pystr
  phone :: pystr
  id_number :: pystr
  age :: "int option"
  age_band :: band

definition astype_str :: "cell \<Rightarrow> pystr" where
  "astype_str c = (case c of None \<Rightarrow> ascii ''nan'' | Some s \<Rightarrow> s)"

definition replace_nan :: "pystr \<Rightarrow> pystr" where
  "replace_nan s = (if s = ascii ''nan'' then [] else s)"

text \<open>
  \<^verbatim>\<open>names = df[name_col].astype(str).replace('nan', '').str.strip()
raw_phones = df[phone_col].astype(str).replace('nan', '')
raw_ids = df[id_col].astype(str).replace('nan', '')
phones = [clean_phone(p) for p in raw_phones]
id_cards = [clean_id(i) for i in raw_ids]
for id_card in id_cards:
    age = calculate_age(id_card)
    ages.append(age)
    categories.append(age_category(age))\<close>
\<close>

definition base_row :: "(pystr \<Rightarrow> pystr) \<Rightarrow> datetime \<Rightarrow> cell \<times> cell \<times> cell \<Rightarrow> person" where
  "base_row upper today cells =
     (case cells of (n, p, i) \<Rightarrow>
        let id_card = clean_id upper (replace_nan (astype_str i));
            a = calculate_age today id_card
        in \<lparr>name = strip (replace_nan (astype_str n)),
            phone = clean_phone (replace_nan (astype_str p)),
            id_number = id_card,
            age = a,
            age_band = age_category a\<rparr>)"

definition base_df ::
  "(pystr \<Rightarrow> pystr) \<Rightarrow> datetime \<Rightarrow> cell list \<Rightarrow> cell list \<Rightarrow> cell list \<Rightarrow> person list" where
  "base_df upper today names phones ids =
     map (base_row upper today) (zip names (zip phones ids))"

section \<open>Assembling the output rows\<close>

datatype field = NameColumn | PhoneColumn | IdColumn

datatype error =
    MaxOfEmptySequence
  | CannotDetermine "field list"
  | NoObjectsToConcatenate

text \<open>
  A row of the output: a row of \<open>base_df\<close>, the statistics row of a band (its name cell
  is the label with the count, its other cells are empty strings) or the empty row.
\<close>

datatype row = DataRow person | CountRow nat | BlankRow

definition category_order :: "band list" where
  "category_order = [Adult, Youth, Child, Senior, Unknown]"

text \<open>
  \<^verbatim>\<open>sub_condition = pd.Series(False, index=cat_data.index)
if cat == <Adult>:
    cond = (cat_data[age] >= 23) & (cat_data[age] < 25)
    sub_condition[cond] = True
elif cat == <Youth>:
    cond = (cat_data[age] >= 21) & (cat_data[age] < 23)
    sub_condition[cond] = True\<close>
  A comparison with a missing age is false.
\<close>

definition sub_condition :: "band \<Rightarrow> person \<Rightarrow> bool" where
  "sub_condition cat r =
     (if cat = Adult then (case age r of None \<Rightarrow> False | Some a \<Rightarrow> 23 \<le> a \<and> a < 25)
      else if cat = Youth then (case age r of None \<Rightarrow> False | Some a \<Rightarrow> 21 \<le> a \<and> a < 23)
      else False)"

text \<open>
  The body of the loop over \<open>enumerate(category_order)\<close>: the frames it appends to
  \<open>parts\<close> for the band \<open>cat\<close> at index \<open>i\<close>.
\<close>

definition band_parts :: "person list \<Rightarrow> nat \<Rightarrow> band \<Rightarrow> row list list" where
  "band_parts df i cat =
     (let cat_data = filter (\<lambda>r. age_band r = cat) df in
      if cat_data = [] then []
      else
        let main_data = filter (\<lambda>r. \<not> sub_condition cat r) cat_data;
            sub_data = filter (sub_condition cat) cat_data;
            total_count = length cat_data
        in (if main_data \<noteq> [] then [map DataRow main_data] else [])
           @ (if sub_data \<noteq> [] then [map DataRow sub_data] else [])
           @ [[CountRow total_count]]
           @ (if i < length category_order - 1 then [[BlankRow]] else []))"

fun loop :: "person list \<Rightarrow> (nat \<times> band) list \<Rightarrow> row list list \<Rightarrow> row list list" where
  "loop df [] parts = parts"
| "loop df ((i, cat) # rest) parts = loop df rest (parts @ band_parts df i cat)"

definition build_parts :: "person list \<Rightarrow> row list list" where
  "build_parts df = loop df (enumerate 0 category_order) []"

text \<open>\<open>pd.concat(parts, ignore_index=True)\<close> raises \<open>ValueError\<close> on an empty list.\<close>

definition final_df :: "person list \<Rightarrow> error + row list" where
  "final_df df =
     (let parts = build_parts df in
      if parts = [] then Inl NoObjectsToConcatenate else Inr (concat parts))"

section \<open>Background colours\<close>

datatype fill = Yellow | Green | Blue

text \<open>
  The values the colouring loop reads back from columns 1, 4 and 5 of a row. The age cell
  holds a number or nothing usable (a missing age, or the empty string of a statistics or
  empty row, on which \<open>float\<close> raises and the \<open>except\<close> passes); the band cell holds a
  label or the empty string.
\<close>

fun decimal :: "nat \<Rightarrow> pystr" where
  "decimal n = (if n < 10 then [48 + n] else decimal (n div 10) @ [48 + n mod 10])"

definition name_cell :: "row \<Rightarrow> pystr" where
  "name_cell r =
     (case r of DataRow p \<Rightarrow> name p
      | CountRow n \<Rightarrow> [20154, 25968, 65306] @ decimal n
      | BlankRow \<Rightarrow> [])"

definition age_cell :: "row \<Rightarrow> int option" where
  "age_cell r = (case r of DataRow p \<Rightarrow> age p | CountRow n \<Rightarrow> None | BlankRow \<Rightarrow> None)"

definition cat_cell :: "row \<Rightarrow> band option" where
  "cat_cell r = (case r of DataRow p \<Rightarrow> Some (age_band p) | CountRow n \<Rightarrow> None | BlankRow \<Rightarrow> None)"

text \<open>
  \<^verbatim>\<open>if name and str(name).strip() and cat:
    if cat == <Senior> or cat == <Child>:
        fill = yellow_fill
    elif cat == <Adult> and age is not None:
        if 23 <= age_val < 25: fill = green_fill
    elif cat == <Youth> and age is not None:
        if 21 <= age_val < 23: fill = blue_fill\<close>
\<close>

definition fill_of :: "pystr \<Rightarrow> int option \<Rightarrow> band option \<Rightarrow> fill option" where
  "fill_of nm ag cat =
     (if nm \<noteq> [] \<and> strip nm \<noteq> [] \<and> cat \<noteq> None then
        (if cat = Some Senior \<or> cat = Some Child then Some Yellow
         else if cat = Some Adult \<and> ag \<noteq> None then
           (case ag of Some a \<Rightarrow> if 23 \<le> a \<and> a < 25 then Some Green else None | None \<Rightarrow> None)
         else if cat = Some Youth \<and> ag \<noteq> None then
           (case ag of Some a \<Rightarrow> if 21 \<le> a \<and> a < 23 then Some Blue else None | None \<Rightarrow> None)
         else None)
      else None)"

definition row_fill :: "row \<Rightarrow> fill option" where
  "row_fill r = fill_of (name_cell r) (age_cell r) (cat_cell r)"

section \<open>Column detection\<close>

text \<open>
  A table is the list of its columns in sheet order, each with its label. Labels are
  header texts or header numbers, pairwise distinct (the reader renames duplicates); a
  label counts as false in a condition when it is the empty text or zero.
\<close>

datatype label = LStr pystr | LInt int

type_synonym table = "(label \<times> cell list) list"

definition truthy :: "label option \<Rightarrow> bool" where
  "truthy c =
     (case c of None \<Rightarrow> False | Some (LStr s) \<Rightarrow> s \<noteq> [] | Some (LInt n) \<Rightarrow> n \<noteq> 0)"

record scores =
  name_score :: rat
  phone_score :: rat
  id_score :: rat

text \<open>The pattern of two to four characters in the range U+4E00..U+9FA5, used with \<open>re.fullmatch\<close>.\<close>

definition name_re :: re where
  "name_re = Rep 2 4 (Cls (\<lambda>x. 19968 \<le> x \<and> x \<le> 40869))"

definition is_name :: "pystr \<Rightarrow> bool" where
  "is_name v = re_fullmatch name_re v"

definition has_phone :: "pystr \<Rightarrow> bool" where
  "has_phone v = (re_search phone_re v \<noteq> None)"

definition has_id :: "pystr \<Rightarrow> bool" where
  "has_id v = (re_search (id_re (digit_or ''Xx'')) v \<noteq> None)"

text \<open>
  \<^verbatim>\<open>sample = df[col].dropna().astype(str).head(100)\<close>; the three counters of the
  column, each divided by \<open>total = len(df[col].dropna().head(100))\<close> when that is positive.
  Counts and totals are at most 100, so the floating-point quotients compare with each
  other and with \<open>0.3\<close> as the exact fractions do.
\<close>

definition sample :: "cell list \<Rightarrow> pystr list" where
  "sample col = take 100 (List.map_filter (\<lambda>c. c) col)"

definition column_scores :: "cell list \<Rightarrow> scores" where
  "column_scores col =
     (let total = length (sample col) in
      if total > 0 then
        \<lparr>name_score = of_nat (length (filter is_name (sample col))) / of_nat total,
         phone_score = of_nat (length (filter has_phone (sample col))) / of_nat total,
         id_score = of_nat (length (filter has_id (sample col))) / of_nat total\<rparr>
      else \<lparr>name_score = 0, phone_score = 0, id_score = 0\<rparr>)"

text \<open>
  \<open>max(xs, key=f)\<close> returns the first element whose key is maximal; \<open>max\<close> of an empty
  sequence raises \<open>ValueError\<close>.
\<close>

fun max_key :: "('a \<Rightarrow> rat) \<Rightarrow> 'a list \<Rightarrow> 'a option" where
  "max_key f [] = None"
| "max_key f (x # xs) = Some (foldl (\<lambda>b y. if f y > f b then y else b) x xs)"

text \<open>
  \<^verbatim>\<open>name_col = max(scores, key=lambda c: scores[c]['name']) \
    if max(s['name'] for s in scores.values()) > 0.3 else None\<close>
  on a table with at least one column.
\<close>

definition best_col :: "(scores \<Rightarrow> rat) \<Rightarrow> (label \<times> scores) list \<Rightarrow> label option" where
  "best_col f scs =
     (case max_key (\<lambda>v. v) (map (f \<circ> snd) scs) of
        None \<Rightarrow> None
      | Some best \<Rightarrow> if best > 3 / 10 then map_option fst (max_key (f \<circ> snd) scs) else None)"

text \<open>
  \<^verbatim>\<open>candidates = {c: scores[c]['phone'] for c in df.columns if c not in used}
if candidates:
    phone_col = max(candidates, key=candidates.get)
    if candidates[phone_col] <= 0.3:
        phone_col = None\<close>
  With no candidate the variable keeps its value.
\<close>

definition reselect ::
  "(scores \<Rightarrow> rat) \<Rightarrow> (label \<times> scores) list \<Rightarrow> label list \<Rightarrow> label option \<Rightarrow> label option" where
  "reselect f scs used cur =
     (case max_key (f \<circ> snd) (filter (\<lambda>cs. fst cs \<notin> set used) scs) of
        None \<Rightarrow> cur
      | Some cs \<Rightarrow> if f (snd cs) \<le> 3 / 10 then None else Some (fst cs))"

text \<open>
  \<^verbatim>\<open>if id_col and (id_col == phone_col or id_col == name_col):
    pass
used = set()
if id_col and id_col not in used:
    used.add(id_col)
if phone_col and phone_col not in used:
    used.add(phone_col)
else:
    <reselect phone_col>
if name_col and name_col not in used:
    used.add(name_col)
else:
    <reselect name_col>
missing = []
if not name_col: missing.append(<name>)
if not phone_col: missing.append(<phone>)
if not id_col: missing.append(<id>)
if missing:
    raise ValueError(...)
return name_col, phone_col, id_col\<close>
  The first conditional has no effect. \<open>is_free c used\<close> is the test
  \<open>c and c not in used\<close>, and \<open>mark_used\<close> is \<open>used.add\<close>.
\<close>

definition is_free :: "label option \<Rightarrow> label list \<Rightarrow> bool" where
  "is_free c used = (truthy c \<and> (case c of None \<Rightarrow> False | Some l \<Rightarrow> l \<notin> set used))"

definition mark_used :: "label option \<Rightarrow> label list \<Rightarrow> label list" where
  "mark_used c used = (case c of None \<Rightarrow> used | Some l \<Rightarrow> l # used)"

definition detect_columns :: "table \<Rightarrow> error + (label option \<times> label option \<times> label option)" where
  "detect_columns df =
     (if df = [] then Inl MaxOfEmptySequence
      else
        let scs = map (\<lambda>(c, col). (c, column_scores col)) df;
            name_col = best_col name_score scs;
            phone_col = best_col phone_score scs;
            id_col = best_col id_score scs;
            used = [];
            used = (if is_free id_col used then mark_used id_col used else used);
            (phone_col, used) =
              (if is_free phone_col used then (phone_col, mark_used phone_col used)
               else (reselect phone_score scs used phone_col, used));
            (name_col, used) =
              (if is_free name_col used then (name_col, mark_used name_col used)
               else (reselect name_score scs used name_col, used));
            missing = (if \<not> truthy name_col then [NameColumn] else [])
                    @ (if \<not> truthy phone_col then [PhoneColumn] else [])
                    @ (if \<not> truthy id_col then [IdColumn] else [])
        in if missing \<noteq> [] then Inl (CannotDetermine missing)
           else Inr (name_col, phone_col, id_col))"

section \<open>Notions of the specification\<close>

text \<open>
  The specification's sub-split windows, in its words: Adult sub is \<open>23 \<le> age < 25\<close>,
  Youth sub is \<open>21 \<le> age < 23\<close>, the other bands have no sub-split.
\<close>

definition spec_sub_window :: "band \<Rightarrow> int option \<Rightarrow> bool" where
  "spec_sub_window c a =
     (case a of
        None \<Rightarrow> False
      | Some n \<Rightarrow> (c = Adult \<and> 23 \<le> n \<and> n < 25) \<or> (c = Youth \<and> 21 \<le> n \<and> n < 23))"

text \<open>
  The specification's highlight classes and its function \<open>highlight(band, age)\<close>, in its
  words; \<open>fill_class\<close> names the class each colour of the script stands for.
\<close>

datatype highlight = NoHighlight | CareFlag | TransitionA | TransitionB

definition spec_highlight :: "band \<Rightarrow> int option \<Rightarrow> highlight" where
  "spec_highlight b a =
     (if b = Child \<or> b = Senior then CareFlag
      else if b = Adult \<and> (case a of None \<Rightarrow> False | Some n \<Rightarrow> 23 \<le> n \<and> n < 25)
        then TransitionA
      else if b = Youth \<and> (case a of None \<Rightarrow> False | Some n \<Rightarrow> 21 \<le> n \<and> n < 23)
        then TransitionB
      else NoHighlight)"

definition fill_class :: "fill option \<Rightarrow> highlight" where
  "fill_class f =
     (case f of
        None \<Rightarrow> NoHighlight
      | Some Yellow \<Rightarrow> CareFlag
      | Some Green \<Rightarrow> TransitionA
      | Some Blue \<Rightarrow> TransitionB)"

text \<open>
  A phone number in the specification's words: 11 digits, the first of them 1 and the
  second in 3..9.
\<close>

definition phone_number :: "pystr \<Rightarrow> bool" where
  "phone_number w =
     (length w = 11 \<and> list_all is_digit w \<and> w ! 0 = of_char CHR ''1''
      \<and> of_char CHR ''3'' \<le> w ! 1 \<and> w ! 1 \<le> of_char CHR ''9'')"

text \<open>
  A name in the specification's words, without the trimming: 2 to 4 characters, each an
  ideograph of the range U+4E00..U+9FA5.
\<close>

definition ideographs_2_4 :: "pystr \<Rightarrow> bool" where
  "ideographs_2_4 v =
     (2 \<le> length v \<and> length v \<le> 4 \<and> list_all (\<lambda>c. 19968 \<le> c \<and> c \<le> 40869) v)"

text \<open>
  A valid ID string: the whole string matches the ID pattern of \<open>clean_id\<close>. Its
  birth date is read from the characters at positions 6..13.
\<close>

definition valid_id :: "pystr \<Rightarrow> bool" where
  "valid_id idn = re_fullmatch (id_re (digit_or ''X'')) idn"

definition birth_date :: "pystr \<Rightarrow> int \<times> int \<times> int" where
  "birth_date idn =
     (number (take 4 (drop 6 idn)), number (take 2 (drop 10 idn)), number (take 2 (drop 12 idn)))"

text \<open>The records of the data rows of an output, in output order.\<close>

fun data_rows :: "row list \<Rightarrow> person list" where
  "data_rows [] = []"
| "data_rows (DataRow p # rs) = p # data_rows rs"
| "data_rows (_ # rs) = data_rows rs"

text \<open>A record with a given name and age, in the band of that age (for examples).\<close>

definition person_aged :: "string \<Rightarrow> int \<Rightarrow> person" where
  "person_aged n a =
     \<lparr>name = ascii n, phone = [], id_number = [], age = Some a,
      age_band = age_category (Some a)\<rparr>"

section \<open>Evaluation on concrete values\<close>

lemma rep_m_numeral:
  "rep_m f m (numeral k) s =
     concat (map (rep_m f (m - 1) (pred_numeral k)) (f s)) @ (if m = 0 then [s] else [])"
  by (simp add: numeral_eq_Suc)

lemmas text_defs =
  ascii_def strip_def py_isspace_def whitespace_def is_digit_def decimal_value_def nd_starts_def

declare re_search.simps [simp del]

lemmas re_defs =
  re_search.simps rep_m_numeral chr_def rng_def digit_def times_def one_of_def digit_or_def
  phone_re_def id_re_def name_re_def re_fullmatch_def

lemmas detect_defs =
  detect_columns_def column_scores_def sample_def List.map_filter_def is_name_def
  has_phone_def has_id_def best_col_def reselect_def is_free_def mark_used_def truthy_def

lemmas age_defs =
  calculate_age_def strptime_Ymd_def Y_re_def m_re_def d_re_def group_def py_int_def number_def
  valid_date_def days_in_month_def is_leap_def before_def clean_id_def upper_ascii_def
  clean_phone_def base_row_def astype_str_def replace_nan_def age_category_def

lemma base_row_example:
  "base_row upper_ascii \<lparr>year = 2026, month = 11, day = 3\<rparr>
      (Some (ascii '' Li ''), Some (ascii ''tel 13912345678''), Some (ascii ''11010120030101123x''))
   = \<lparr>name = ascii ''Li'', phone = ascii ''13912345678'', id_number = ascii ''11010120030101123X'',
      age = Some 23, age_band = Adult\<rparr>"
  by (simp add: text_defs re_defs age_defs Let_def)

section \<open>Whitespace and trimming\<close>

lemma strip_front: "strip s = [] \<or> \<not> py_isspace (hd (strip s))"
proof (cases "strip s = []")
  case False
  let ?A = "dropWhile py_isspace s"
  let ?B = "dropWhile py_isspace (rev ?A)"
  from False have B: "?B \<noteq> []" by (simp add: strip_def)
  then have A: "?A \<noteq> []" by (metis dropWhile.simps(1) rev.simps(1))
  have "rev ?A = takeWhile py_isspace (rev ?A) @ ?B" by simp
  then have "last (rev ?A) = last ?B" using B by (metis last_appendR)
  then have "last ?B = hd ?A" using A by (simp add: last_rev)
  moreover have "\<not> py_isspace (hd ?A)" using A by (rule hd_dropWhile)
  moreover have "hd (strip s) = last ?B" using B by (simp add: strip_def hd_rev)
  ultimately show ?thesis by simp
qed simp

lemma strip_back: "strip s = [] \<or> \<not> py_isspace (last (strip s))"
proof (cases "strip s = []")
  case False
  let ?B = "dropWhile py_isspace (rev (dropWhile py_isspace s))"
  from False have B: "?B \<noteq> []" by (simp add: strip_def)
  then have "\<not> py_isspace (hd ?B)" by (rule hd_dropWhile)
  moreover have "last (strip s) = hd ?B" using B by (simp add: strip_def last_rev)
  ultimately show ?thesis by simp
qed simp

lemma strip_fixed:
  assumes "s = [] \<or> (\<not> py_isspace (hd s) \<and> \<not> py_isspace (last s))"
  shows "strip s = s"
proof (cases "s = []")
  case True then show ?thesis by (simp add: strip_def)
next
  case False
  with assms have h: "\<not> py_isspace (hd s)" and l: "\<not> py_isspace (last s)" by auto
  from h False have a: "dropWhile py_isspace s = s" by (cases s) auto
  from l False have "\<not> py_isspace (hd (rev s))" by (simp add: hd_rev)
  with False have b: "dropWhile py_isspace (rev s) = rev s" by (cases "rev s") auto
  show ?thesis by (simp add: strip_def a b)
qed

lemma strip_idem: "strip (strip s) = strip s"
  using strip_front [of s] strip_back [of s] by (intro strip_fixed) auto

section \<open>Matching the patterns\<close>

lemma rmatch_Cls_Nil: "rmatch (Cls p) [] = []"
  by simp

lemma rmatch_Cls_Cons: "rmatch (Cls p) (c # t) = (if p c then [t] else [])"
  by simp

lemma rep_m_class:
  assumes f: "\<And>s. f s = (case s of [] \<Rightarrow> [] | c # t \<Rightarrow> if p c then [t] else [])"
  shows "rep_m f n n s =
     (if n \<le> length s \<and> list_all p (take n s) then [drop n s] else [])"
proof (induction n arbitrary: s)
  case 0 show ?case by simp
next
  case (Suc n)
  show ?case
  proof (cases s)
    case Nil
    have "f [] = []" by (subst f) simp
    with Nil show ?thesis by simp
  next
    case (Cons a t)
    have "f (a # t) = (if p a then [t] else [])" by (subst f) simp
    with Cons show ?thesis by (cases "p a") (simp_all add: Suc)
  qed
qed

lemma rmatch_Seq_Cls_Nil: "rmatch (Seq (Cls p) r) [] = []"
  by simp

lemma rmatch_Seq_Cls_Cons: "rmatch (Seq (Cls p) r) (c # t) = (if p c then rmatch r t else [])"
  by simp

lemma rmatch_times_Cls:
  "rmatch (times n (Cls p)) s =
     (if n \<le> length s \<and> list_all p (take n s) then [drop n s] else [])"
  unfolding times_def rmatch.simps(4)
  by (rule rep_m_class) simp

lemma is_digit_ascii: "48 \<le> c \<Longrightarrow> c \<le> 57 \<Longrightarrow> is_digit c"
  by (simp add: is_digit_def decimal_value_def nd_starts_def)

lemma whitespace_not_digits: "list_all (\<lambda>c. \<not> is_digit c) whitespace"
  by (simp add: whitespace_def is_digit_def decimal_value_def nd_starts_def)

lemma space_not_digit: "py_isspace c \<Longrightarrow> \<not> is_digit c"
  using whitespace_not_digits by (simp add: py_isspace_def list_all_iff)

lemma rmatch_Seq_times:
  "rmatch (Seq (times n (Cls p)) r) s =
     (if n \<le> length s \<and> list_all p (take n s) then rmatch r (drop n s) else [])"
proof (cases "n \<le> length s \<and> list_all p (take n s)")
  case True
  then have "rmatch (times n (Cls p)) s = [drop n s]" by (simp add: rmatch_times_Cls)
  then have "rmatch (Seq (times n (Cls p)) r) s = rmatch r (drop n s)" by simp
  with True show ?thesis by simp
next
  case False
  then have "rmatch (times n (Cls p)) s = []" by (simp only: rmatch_times_Cls if_False)
  then have "rmatch (Seq (times n (Cls p)) r) s = []" by simp
  with False show ?thesis by (simp only: if_False)
qed

lemmas rmatch_sym =
  rmatch_Seq_Cls_Nil rmatch_Seq_Cls_Cons rmatch_Seq_times rmatch_times_Cls rmatch_Cls_Nil
  rmatch_Cls_Cons

lemma rmatch_phone_Cons:
  "rmatch phone_re (a # b # u) =
        (if a = 49 \<and> 51 \<le> b \<and> b \<le> 57 \<and> 9 \<le> length u \<and> list_all is_digit (take 9 u)
         then [drop 9 u] else [])"
  by (simp add: phone_re_def chr_def rng_def digit_def rmatch_sym del: rmatch.simps)

lemma phone_number_Cons:
  "phone_number (take 11 (a # b # u)) =
        (a = 49 \<and> 51 \<le> b \<and> b \<le> 57 \<and> 9 \<le> length u \<and> list_all is_digit (take 9 u))"
proof -
  have d: "a = 49 \<Longrightarrow> is_digit a" "51 \<le> b \<Longrightarrow> b \<le> 57 \<Longrightarrow> is_digit b"
    by (simp_all add: is_digit_ascii)
  have n: "min (length u) 9 = 9 \<longleftrightarrow> 9 \<le> length u" by auto
  have "phone_number (take 11 (a # b # u)) =
     (min (length u) 9 = 9 \<and> is_digit a \<and> is_digit b \<and> list_all is_digit (take 9 u)
        \<and> a = 49 \<and> 51 \<le> b \<and> b \<le> 57)"
    by (simp add: phone_number_def)
  also have "\<dots> = (a = 49 \<and> 51 \<le> b \<and> b \<le> 57 \<and> 9 \<le> length u \<and> list_all is_digit (take 9 u))"
    unfolding n using d by blast
  finally show ?thesis .
qed

lemma rmatch_phone:
  "rmatch phone_re s = (if phone_number (take 11 s) then [drop 11 s] else [])"
proof (cases s)
  case Nil then show ?thesis by (simp add: phone_re_def chr_def phone_number_def)
next
  case (Cons a t)
  show ?thesis
  proof (cases t)
    case Nil with Cons show ?thesis
      by (simp add: phone_re_def chr_def rng_def phone_number_def)
  next
    case (Cons b u)
    have D: "drop 11 (a # b # u) = drop 9 u" by simp
    show ?thesis unfolding \<open>s = a # t\<close> Cons rmatch_phone_Cons phone_number_Cons D by simp
  qed
qed


lemma phone_number_length: "phone_number (take 11 s) \<Longrightarrow> 11 \<le> length s"
  by (auto simp: phone_number_def)

lemma re_search_phone_Nil: "re_search phone_re [] = None"
  by (simp add: re_search.simps rmatch_phone phone_number_def del: rmatch.simps)

lemma re_search_phone_Cons:
  "re_search phone_re (c # t) =
     (if phone_number (take 11 (c # t)) then Some (take 11 (c # t)) else re_search phone_re t)"
proof (cases "phone_number (take 11 (c # t))")
  case True
  from phone_number_length [OF True] have "length (c # t) - length (drop 11 (c # t)) = 11"
    by simp
  with True show ?thesis
    by (simp add: re_search.simps rmatch_phone del: rmatch.simps take_Cons_numeral drop_Cons_numeral)
next
  case False
  then show ?thesis
    by (simp add: re_search.simps rmatch_phone del: rmatch.simps take_Cons_numeral)
qed

lemma re_search_phone_first:
  "phone_number (take 11 (drop i s)) \<Longrightarrow> (\<forall>j<i. \<not> phone_number (take 11 (drop j s)))
     \<Longrightarrow> re_search phone_re s = Some (take 11 (drop i s))"
proof (induction s arbitrary: i)
  case Nil
  then show ?case by (simp add: phone_number_def)
next
  case (Cons c t)
  show ?case
  proof (cases i)
    case 0
    with Cons.prems(1) show ?thesis by (simp add: re_search_phone_Cons del: take_Cons_numeral)
  next
    case (Suc k)
    with Cons.prems(2) have n0: "\<not> phone_number (take 11 (c # t))" by (metis drop0 zero_less_Suc)
    have "\<forall>j<k. \<not> phone_number (take 11 (drop j t))"
    proof (intro allI impI)
      fix j assume "j < k"
      then have "Suc j < i" using Suc by simp
      with Cons.prems(2) have "\<not> phone_number (take 11 (drop (Suc j) (c # t)))" by blast
      then show "\<not> phone_number (take 11 (drop j t))" by simp
    qed
    moreover from Cons.prems(1) Suc have "phone_number (take 11 (drop k t))" by simp
    ultimately have "re_search phone_re t = Some (take 11 (drop k t))" by (rule Cons.IH [rotated])
    with n0 Suc show ?thesis by (simp add: re_search_phone_Cons del: take_Cons_numeral)
  qed
qed

lemma re_search_phone_iff:
  "(re_search phone_re s \<noteq> None) = (\<exists>i. phone_number (take 11 (drop i s)))"
proof
  assume "re_search phone_re s \<noteq> None"
  then show "\<exists>i. phone_number (take 11 (drop i s))"
  proof (induction s)
    case Nil then show ?case by (simp add: re_search_phone_Nil)
  next
    case (Cons c t)
    show ?case
    proof (cases "phone_number (take 11 (c # t))")
      case True
      then have "phone_number (take 11 (drop 0 (c # t)))" by simp
      then show ?thesis by blast
    next
      case False
      with Cons.prems have "re_search phone_re t \<noteq> None"
        by (simp add: re_search_phone_Cons del: take_Cons_numeral)
      from Cons.IH [OF this] obtain i where "phone_number (take 11 (drop i t))" by blast
      then have "phone_number (take 11 (drop (Suc i) (c # t)))" by simp
      then show ?thesis by blast
    qed
  qed
next
  assume "\<exists>i. phone_number (take 11 (drop i s))"
  then obtain i where "phone_number (take 11 (drop i s))"
      and "\<forall>j<i. \<not> phone_number (take 11 (drop j s))"
    using exists_least_iff [of "\<lambda>i. phone_number (take 11 (drop i s))"] by blast
  then have "re_search phone_re s = Some (take 11 (drop i s))" by (rule re_search_phone_first)
  then show "re_search phone_re s \<noteq> None" by simp
qed

lemma re_search_phone_space:
  assumes "py_isspace c"
  shows "re_search phone_re (c # t) = re_search phone_re t"
proof -
  have "is_digit 49" by (simp add: is_digit_ascii)
  with assms space_not_digit have "c \<noteq> 49" by blast
  then have "\<not> phone_number (take 11 (c # t))" by (simp add: phone_number_def)
  then show ?thesis by (simp add: re_search_phone_Cons del: take_Cons_numeral)
qed

lemma re_search_phone_dropWhile:
  "re_search phone_re (dropWhile py_isspace s) = re_search phone_re s"
  by (induction s) (simp_all add: re_search_phone_space)

lemma phone_number_snoc:
  assumes "\<not> is_digit c"
  shows "phone_number (take 11 (s @ [c])) = phone_number (take 11 s)"
proof (cases "11 \<le> length s")
  case True then show ?thesis by simp
next
  case False
  then have "take 11 (s @ [c]) = s @ [c]" "take 11 s = s" by simp_all
  with assms False show ?thesis by (simp add: phone_number_def)
qed

lemma re_search_phone_snoc:
  assumes "\<not> is_digit c"
  shows "re_search phone_re (s @ [c]) = re_search phone_re s"
proof (induction s)
  case Nil
  from assms have "\<not> phone_number (take 11 [c])" by (simp add: phone_number_def)
  then show ?case by (simp add: re_search_phone_Cons re_search_phone_Nil del: take_Cons_numeral)
next
  case (Cons x t)
  have p: "phone_number (take 11 ((x # t) @ [c])) = phone_number (take 11 (x # t))"
    using assms by (rule phone_number_snoc)
  show ?case
  proof (cases "phone_number (take 11 (x # t))")
    case True
    from phone_number_length [OF True] have "take 11 ((x # t) @ [c]) = take 11 (x # t)" by simp
    with True p show ?thesis
      by (simp add: re_search_phone_Cons del: take_Cons_numeral)
  next
    case False
    with p Cons.IH show ?thesis by (simp add: re_search_phone_Cons del: take_Cons_numeral)
  qed
qed

lemma re_search_phone_append:
  "list_all (\<lambda>c. \<not> is_digit c) ws \<Longrightarrow> re_search phone_re (s @ ws) = re_search phone_re s"
proof (induction ws arbitrary: s)
  case Nil then show ?case by simp
next
  case (Cons c ws)
  from Cons.prems have "list_all (\<lambda>c. \<not> is_digit c) ws" by simp
  from Cons.IH [OF this, of "s @ [c]"]
  have "re_search phone_re (s @ c # ws) = re_search phone_re (s @ [c])" by simp
  with Cons.prems show ?case by (simp add: re_search_phone_snoc)
qed

lemma re_search_phone_strip: "re_search phone_re (strip s) = re_search phone_re s"
proof -
  let ?A = "dropWhile py_isspace s"
  let ?ws = "rev (takeWhile py_isspace (rev ?A))"
  have "rev (takeWhile py_isspace (rev ?A) @ dropWhile py_isspace (rev ?A)) = ?A"
    by (simp only: takeWhile_dropWhile_id rev_rev_ident)
  then have "rev (dropWhile py_isspace (rev ?A)) @ ?ws = ?A"
    by (simp only: rev_append)
  then have A: "?A = strip s @ ?ws" by (simp add: strip_def)
  have "list_all py_isspace ?ws"
    by (simp add: list_all_iff) (metis set_takeWhileD)
  then have "list_all (\<lambda>c. \<not> is_digit c) ?ws"
    by (simp add: list_all_iff space_not_digit)
  then have "re_search phone_re (strip s @ ?ws) = re_search phone_re (strip s)"
    by (rule re_search_phone_append)
  with A have "re_search phone_re ?A = re_search phone_re (strip s)" by simp
  then show ?thesis by (simp add: re_search_phone_dropWhile)
qed

lemma clean_phone_search:
  "clean_phone s = (case re_search phone_re s of Some m \<Rightarrow> m | None \<Rightarrow> [])"
  by (cases "s = []") (simp_all add: clean_phone_def re_search_phone_strip re_search_phone_Nil)

section \<open>Valid ID strings and their birth dates\<close>

lemma rep_m_split:
  assumes f: "\<And>s rest. rest \<in> set (f s) \<Longrightarrow> \<exists>w. s = w @ rest \<and> (\<forall>t. t \<in> set (f (w @ t)))"
  shows "rest \<in> set (rep_m f m n s) \<Longrightarrow> \<exists>w. s = w @ rest \<and> (\<forall>t. t \<in> set (rep_m f m n (w @ t)))"
proof (induction n arbitrary: m s rest)
  case 0
  then have "s = [] @ rest \<and> (\<forall>t. t \<in> set (rep_m f m 0 ([] @ t)))"
    by (auto split: if_splits)
  then show ?case by blast
next
  case (Suc n)
  from Suc.prems consider
    (more) mid where "mid \<in> set (f s)" "rest \<in> set (rep_m f (m - 1) n mid)"
    | (stop) "m = 0" "rest = s"
    by (auto split: if_splits)
  then show ?case
  proof cases
    case more
    from f [OF more(1)] obtain w1 where w1: "s = w1 @ mid" "\<forall>t. t \<in> set (f (w1 @ t))" by blast
    from Suc.IH [OF more(2)] obtain w2 where
      w2: "mid = w2 @ rest" "\<forall>t. t \<in> set (rep_m f (m - 1) n (w2 @ t))" by blast
    have "\<forall>t. t \<in> set (rep_m f m (Suc n) ((w1 @ w2) @ t))"
    proof
      fix t
      from w1(2) have "w2 @ t \<in> set (f (w1 @ w2 @ t))" by blast
      moreover from w2(2) have "t \<in> set (rep_m f (m - 1) n (w2 @ t))" by blast
      ultimately show "t \<in> set (rep_m f m (Suc n) ((w1 @ w2) @ t))" by auto
    qed
    moreover have "s = (w1 @ w2) @ rest" using w1(1) w2(1) by simp
    ultimately show ?thesis by blast
  next
    case stop
    then have "s = [] @ rest \<and> (\<forall>t. t \<in> set (rep_m f m (Suc n) ([] @ t)))" by simp
    then show ?thesis by blast
  qed
qed

lemma rmatch_split:
  "rest \<in> set (rmatch r s) \<Longrightarrow> \<exists>w. s = w @ rest \<and> (\<forall>t. t \<in> set (rmatch r (w @ t)))"
proof (induction r arbitrary: s rest)
  case (Cls p)
  then obtain c where "s = c # rest" "p c" by (auto split: list.splits if_splits)
  then have "s = [c] @ rest \<and> (\<forall>t. t \<in> set (rmatch (Cls p) ([c] @ t)))" by simp
  then show ?case by blast
next
  case (Seq a b)
  from Seq.prems obtain mid where m: "mid \<in> set (rmatch a s)" "rest \<in> set (rmatch b mid)"
    by auto
  from Seq.IH(1) [OF m(1)] obtain w1 where
    w1: "s = w1 @ mid" "\<forall>t. t \<in> set (rmatch a (w1 @ t))" by blast
  from Seq.IH(2) [OF m(2)] obtain w2 where
    w2: "mid = w2 @ rest" "\<forall>t. t \<in> set (rmatch b (w2 @ t))" by blast
  have "\<forall>t. t \<in> set (rmatch (Seq a b) ((w1 @ w2) @ t))"
  proof
    fix t
    from w1(2) have "w2 @ t \<in> set (rmatch a (w1 @ w2 @ t))" by blast
    moreover from w2(2) have "t \<in> set (rmatch b (w2 @ t))" by blast
    ultimately show "t \<in> set (rmatch (Seq a b) ((w1 @ w2) @ t))" by auto
  qed
  moreover have "s = (w1 @ w2) @ rest" using w1(1) w2(1) by simp
  ultimately show ?case by blast
next
  case (Alt a b)
  from Alt.prems have "rest \<in> set (rmatch a s) \<or> rest \<in> set (rmatch b s)" by simp
  then show ?case
  proof
    assume "rest \<in> set (rmatch a s)"
    from Alt.IH(1) [OF this] show ?thesis by auto
  next
    assume "rest \<in> set (rmatch b s)"
    from Alt.IH(2) [OF this] show ?thesis by auto
  qed
next
  case (Rep m n r)
  from Rep.prems have "rest \<in> set (rep_m (rmatch r) m n s)" by simp
  then have "\<exists>w. s = w @ rest \<and> (\<forall>t. t \<in> set (rep_m (rmatch r) m n (w @ t)))"
    by (rule rep_m_split [rotated]) (rule Rep.IH)
  then show ?case by simp
qed

lemma re_search_fullmatch: "re_search r s = Some m \<Longrightarrow> re_fullmatch r m"
proof (induction s)
  case Nil
  then have "m = []" "rmatch r [] \<noteq> []" by (auto simp: re_search.simps split: list.splits)
  then obtain rest where "rest \<in> set (rmatch r [])" by (cases "rmatch r []") auto
  from rmatch_split [OF this] have "[] \<in> set (rmatch r [])" by auto
  with \<open>m = []\<close> show ?case by (simp add: re_fullmatch_def)
next
  case (Cons c t)
  show ?case
  proof (cases "rmatch r (c # t)")
    case Nil
    with Cons.prems have "re_search r t = Some m" by (simp add: re_search.simps)
    then show ?thesis by (rule Cons.IH)
  next
    case (Cons rest more)
    with Cons.prems have m: "m = take (length (c # t) - length rest) (c # t)"
      by (simp add: re_search.simps)
    from Cons have "rest \<in> set (rmatch r (c # t))" by simp
    from rmatch_split [OF this] obtain w where
      w: "c # t = w @ rest" "\<forall>t. t \<in> set (rmatch r (w @ t))" by blast
    from m w(1) have "m = w" by simp
    moreover from w(2) have "[] \<in> set (rmatch r (w @ []))" by blast
    ultimately show ?thesis by (simp add: re_fullmatch_def)
  qed
qed

lemma clean_id_valid: "clean_id upper s = [] \<or> valid_id (clean_id upper s)"
  by (auto simp: clean_id_def valid_id_def split: option.splits dest: re_search_fullmatch)


lemma in_rmatch_Cls: "(rest \<in> set (rmatch (Cls p) s)) = (\<exists>c. s = c # rest \<and> p c)"
  by (cases s) auto

lemma in_rmatch_Seq:
  "(rest \<in> set (rmatch (Seq a b) s)) = (\<exists>mid. mid \<in> set (rmatch a s) \<and> rest \<in> set (rmatch b mid))"
  by auto

lemma in_rmatch_Alt:
  "(rest \<in> set (rmatch (Alt a b) s)) = (rest \<in> set (rmatch a s) \<or> rest \<in> set (rmatch b s))"
  by simp

lemma in_rmatch_times_1: "(rest \<in> set (rmatch (times 1 r) s)) = (rest \<in> set (rmatch r s))"
  by (simp add: times_def)

lemma in_rmatch_times_Suc0:
  "(rest \<in> set (rmatch (times (Suc 0) r) s)) = (rest \<in> set (rmatch r s))"
  by (simp add: times_def)

lemma in_rmatch_times_numeral:
  "(rest \<in> set (rmatch (times (numeral k) r) s)) =
     (\<exists>mid. mid \<in> set (rmatch r s) \<and> rest \<in> set (rmatch (times (pred_numeral k) r) mid))"
  by (auto simp: times_def rep_m_numeral)

lemmas in_rmatch =
  in_rmatch_Cls in_rmatch_Seq in_rmatch_Alt in_rmatch_times_1 in_rmatch_times_Suc0
  in_rmatch_times_numeral

lemma valid_id_birth:
  assumes "valid_id w"
  shows "\<exists>a b c d e f g h. length w = 18 \<and> take 8 (drop 6 w) = [a, b, c, d, e, f, g, h]
    \<and> ((a = 49 \<and> b = 57) \<or> (a = 50 \<and> b = 48)) \<and> is_digit c \<and> is_digit d
    \<and> ((e = 48 \<and> 49 \<le> f \<and> f \<le> 57) \<or> (e = 49 \<and> 48 \<le> f \<and> f \<le> 50))
    \<and> ((g = 48 \<and> 49 \<le> h \<and> h \<le> 57) \<or> ((g = 49 \<or> g = 50) \<and> is_digit h)
       \<or> (g = 51 \<and> (h = 48 \<or> h = 49)))"
  using assms unfolding valid_id_def re_fullmatch_def id_re_def seqs.simps
  apply (clarsimp simp: in_rmatch chr_def rng_def digit_def one_of_def digit_or_def
      simp del: rmatch.simps)
  apply (elim disjE; clarsimp)
  done


lemma py_int_digits:
  assumes "t \<noteq> []" and "list_all is_digit t"
  shows "py_int t = Some (number t)"
proof -
  from assms have "is_digit (hd t)" "is_digit (last t)" by (simp_all add: list_all_iff)
  then have "\<not> py_isspace (hd t)" "\<not> py_isspace (last t)" using space_not_digit by blast+
  then have "strip t = t" by (intro strip_fixed) simp
  with assms show ?thesis by (simp add: py_int_def)
qed

lemma strptime_first:
  assumes "rmatch Y_re s = r1 # ys" and "rmatch m_re r1 = r2 # ms" and "rmatch d_re r2 = r3 # ds"
  shows "strptime_Ymd s =
     (if r3 \<noteq> [] then None
      else (case (py_int (group s r1), py_int (group r1 r2), py_int (group r2 r3)) of
              (Some y, Some m, Some d) \<Rightarrow>
                if valid_date y m d then Some \<lparr>year = y, month = m, day = d\<rparr> else None
            | _ \<Rightarrow> None))"
  by (simp add: strptime_Ymd_def assms del: rmatch.simps)

lemma Y_re_digits:
  "is_digit a \<Longrightarrow> is_digit b \<Longrightarrow> is_digit c \<Longrightarrow> is_digit d \<Longrightarrow> rmatch Y_re (a # b # c # d # r) = [r]"
  by (simp add: Y_re_def digit_def rmatch_times_Cls)

lemma m_re_month:
  assumes "(e = 48 \<and> 49 \<le> f \<and> f \<le> 57) \<or> (e = 49 \<and> 48 \<le> f \<and> f \<le> 50)"
  shows "\<exists>ms. rmatch m_re (e # f # r) = r # ms"
  using assms by (auto simp: m_re_def chr_def rng_def)

lemma d_re_day:
  assumes "(g = 48 \<and> 49 \<le> h \<and> h \<le> 57) \<or> ((g = 49 \<or> g = 50) \<and> is_digit h)
       \<or> (g = 51 \<and> (h = 48 \<or> h = 49))"
  shows "\<exists>ds. rmatch d_re (g # h # r) = r # ds"
  using assms by (auto simp: d_re_def chr_def rng_def digit_def)

lemma strptime_birth:
  assumes ab: "(a = 49 \<and> b = 57) \<or> (a = 50 \<and> b = 48)" and c: "is_digit c" and d: "is_digit d"
    and ef: "(e = 48 \<and> 49 \<le> f \<and> f \<le> 57) \<or> (e = 49 \<and> 48 \<le> f \<and> f \<le> 50)"
    and gh: "(g = 48 \<and> 49 \<le> h \<and> h \<le> 57) \<or> ((g = 49 \<or> g = 50) \<and> is_digit h)
       \<or> (g = 51 \<and> (h = 48 \<or> h = 49))"
  shows "strptime_Ymd [a, b, c, d, e, f, g, h] =
     (if valid_date (number [a, b, c, d]) (number [e, f]) (number [g, h])
      then Some \<lparr>year = number [a, b, c, d], month = number [e, f], day = number [g, h]\<rparr>
      else None)"
proof -
  from ab have da: "is_digit a" and db: "is_digit b" by (auto intro: is_digit_ascii)
  from ef have de: "is_digit e" and df: "is_digit f" by (auto intro: is_digit_ascii)
  from gh have dg: "is_digit g" and dh: "is_digit h" by (auto intro: is_digit_ascii)
  have Y: "rmatch Y_re [a, b, c, d, e, f, g, h] = [e, f, g, h] # []"
    using da db c d by (simp add: Y_re_digits)
  from m_re_month [OF ef] obtain ms where M: "rmatch m_re [e, f, g, h] = [g, h] # ms" by blast
  from d_re_day [OF gh] obtain ds where D: "rmatch d_re [g, h] = [] # ds" by blast
  have iY: "py_int [a, b, c, d] = Some (number [a, b, c, d])"
    using da db c d by (intro py_int_digits) simp_all
  have iM: "py_int [e, f] = Some (number [e, f])"
    using de df by (intro py_int_digits) simp_all
  have iD: "py_int [g, h] = Some (number [g, h])"
    using dg dh by (intro py_int_digits) simp_all
  show ?thesis
    unfolding strptime_first [OF Y M D] by (simp add: group_def iY iM iD)
qed

lemma calculate_age_valid:
  assumes "valid_id idn"
  shows "calculate_age today idn =
     (case birth_date idn of (y, m, d) \<Rightarrow>
        if valid_date y m d
        then Some (year today - y - (if before (month today, day today) (m, d) then 1 else 0))
        else None)"
proof -
  from valid_id_birth [OF assms] obtain a b c d e f g h where
    len: "length idn = 18" and bs: "take 8 (drop 6 idn) = [a, b, c, d, e, f, g, h]"
    and ab: "(a = 49 \<and> b = 57) \<or> (a = 50 \<and> b = 48)" and c: "is_digit c" and d: "is_digit d"
    and ef: "(e = 48 \<and> 49 \<le> f \<and> f \<le> 57) \<or> (e = 49 \<and> 48 \<le> f \<and> f \<le> 50)"
    and gh: "(g = 48 \<and> 49 \<le> h \<and> h \<le> 57) \<or> ((g = 49 \<or> g = 50) \<and> is_digit h)
       \<or> (g = 51 \<and> (h = 48 \<or> h = 49))"
    by blast
  from len have ne: "idn \<noteq> []" by auto
  have t4: "take 4 (drop 6 idn) = take 4 (take 8 (drop 6 idn))" by simp
  have t2: "take 2 (drop 10 idn) = take 2 (drop 4 (take 8 (drop 6 idn)))"
    by (simp add: drop_take)
  have t2': "take 2 (drop 12 idn) = take 2 (drop 6 (take 8 (drop 6 idn)))"
    by (simp add: drop_take)
  have bd: "birth_date idn = (number [a, b, c, d], number [e, f], number [g, h])"
    unfolding birth_date_def t4 t2 t2' bs by simp
  show ?thesis
    unfolding bd using ne
    by (simp add: calculate_age_def bs strptime_birth [OF ab c d ef gh])
qed

section \<open>Column detection: distinct columns\<close>

text \<open>
  C2. The claim: whenever detection succeeds, name, phone and ID are three different
  columns (the script's own comment before the step reads "make sure the three columns
  differ"). The code does not achieve it. A phone column re-selected from the remaining
  columns is not added to \<open>used\<close>, so the name field may keep the same column: in the
  table below column Z holds an ID number (which also contains a phone-like run of
  digits) and column M holds a name and a phone number; detection succeeds with M as
  both the name and the phone column.
\<close>

theorem detect_columns_name_phone_same:
  "detect_columns
     [(LStr (ascii ''Z''), [Some (ascii ''110101199001011234'')]),
      (LStr (ascii ''M''), [Some [24352, 19977], Some (ascii ''13912345678'')])]
   = Inr (Some (LStr (ascii ''M'')), Some (LStr (ascii ''M'')), Some (LStr (ascii ''Z'')))"
  by (simp add: text_defs re_defs detect_defs Let_def)

section \<open>Column detection: failure\<close>

text \<open>
  C9. The claim: detection fails, naming the unresolved fields, exactly when some field
  has no unclaimed column scoring above 0.3. In a table with the single column Z (three
  ID numbers and two names) the ID field claims Z, and no column is left for phone and
  name; the re-selection finds no candidate, leaves both variables at Z, and detection
  succeeds with Z for all three fields instead of failing.
\<close>

theorem detect_columns_no_candidate_succeeds:
  "detect_columns
     [(LStr (ascii ''Z''),
       [Some (ascii ''110101199001011234''), Some (ascii ''110101199001011234''),
        Some (ascii ''110101199001011234''), Some [24352, 19977], Some [24352, 19977]])]
   = Inr (Some (LStr (ascii ''Z'')), Some (LStr (ascii ''Z'')), Some (LStr (ascii ''Z'')))"
  by (simp add: text_defs re_defs detect_defs Let_def)

section \<open>Assembling the rows: helper facts\<close>

lemma loop_append:
  "loop df xs parts = parts @ concat (map (\<lambda>(i, c). band_parts df i c) xs)"
  by (induction xs arbitrary: parts) auto

lemma build_parts_unfold:
  "build_parts df = band_parts df 0 Adult @ band_parts df 1 Youth @ band_parts df 2 Child
     @ band_parts df 3 Senior @ band_parts df 4 Unknown"
  by (simp add: build_parts_def loop_append category_order_def enumerate_eq_zip upt_rec numeral_eq_Suc)

lemma sub_condition_spec: "sub_condition c r = spec_sub_window c (age r)"
  by (cases c) (auto simp: sub_condition_def spec_sub_window_def split: option.splits)

lemma band_parts_Nil_iff:
  "band_parts df i c = [] \<longleftrightarrow> (\<forall>r\<in>set df. age_band r \<noteq> c)"
  by (auto simp: band_parts_def Let_def filter_empty_conv)

lemma build_parts_Nil_iff: "build_parts df = [] \<longleftrightarrow> df = []"
proof
  assume e: "build_parts df = []"
  show "df = []"
  proof (cases df)
    case (Cons r rs)
    then have "r \<in> set df" by simp
    with e have "age_band r \<noteq> Adult" "age_band r \<noteq> Youth" "age_band r \<noteq> Child"
      "age_band r \<noteq> Senior" "age_band r \<noteq> Unknown"
      by (auto simp: build_parts_unfold band_parts_Nil_iff)
    then show ?thesis by (cases "age_band r") auto
  qed simp
next
  assume "df = []" then show "build_parts df = []"
    by (simp add: build_parts_unfold band_parts_def)
qed

lemma data_rows_append: "data_rows (xs @ ys) = data_rows xs @ data_rows ys"
  by (induction xs rule: data_rows.induct) auto

lemma data_rows_map: "data_rows (map DataRow ps) = ps"
  by (induction ps) auto

lemma band_segment:
  assumes "\<exists>r\<in>set df. age_band r = c"
  shows "concat (band_parts df i c) =
     map DataRow (filter (\<lambda>r. \<not> sub_condition c r) (filter (\<lambda>r. age_band r = c) df))
     @ map DataRow (filter (sub_condition c) (filter (\<lambda>r. age_band r = c) df))
     @ CountRow (length (filter (\<lambda>r. age_band r = c) df))
       # (if i < 4 then [BlankRow] else [])"
proof -
  from assms have "filter (\<lambda>r. age_band r = c) df \<noteq> []"
    by (auto simp: filter_empty_conv)
  then show ?thesis
    by (simp add: band_parts_def Let_def category_order_def)
qed


lemmas person_defs =
  person_aged_def age_category_def band_parts_def sub_condition_def category_order_def




lemma data_rows_segment:
  "data_rows (concat (band_parts df j b)) =
     filter (\<lambda>r. \<not> sub_condition b r) (filter (\<lambda>r. age_band r = b) df)
     @ filter (sub_condition b) (filter (\<lambda>r. age_band r = b) df)"
proof (cases "\<exists>r\<in>set df. age_band r = b")
  case True
  have "data_rows (CountRow (length (filter (\<lambda>r. age_band r = b) df))
          # (if j < 4 then [BlankRow] else [])) = []"
    by simp
  then show ?thesis
    unfolding band_segment [OF True, of j] data_rows_append data_rows_map by simp
next
  case False
  then have "band_parts df j b = []" by (simp add: band_parts_Nil_iff)
  moreover from False have "filter (\<lambda>r. age_band r = b) df = []"
    by (simp add: filter_empty_conv)
  ultimately show ?thesis by simp
qed

lemma data_rows_segment_band:
  "p \<in> set (data_rows (concat (band_parts df j b))) \<Longrightarrow> age_band p = b"
  unfolding data_rows_segment by auto

lemma final_df_rows:
  "df \<noteq> [] \<Longrightarrow> final_df df =
     Inr (concat (band_parts df 0 Adult) @ concat (band_parts df 1 Youth)
          @ concat (band_parts df 2 Child) @ concat (band_parts df 3 Senior)
          @ concat (band_parts df 4 Unknown))"
  by (simp add: final_df_def Let_def build_parts_Nil_iff) (simp add: build_parts_unfold)

lemma final_df_around_segment:
  assumes "(i, c) \<in> set (enumerate 0 category_order)" and "df \<noteq> []"
  shows "\<exists>before after. final_df df = Inr (before @ concat (band_parts df i c) @ after)
     \<and> (\<forall>p\<in>set (data_rows before) \<union> set (data_rows after). age_band p \<noteq> c)"
proof -
  let ?s0 = "concat (band_parts df 0 Adult)" and ?s1 = "concat (band_parts df 1 Youth)"
  and ?s2 = "concat (band_parts df 2 Child)" and ?s3 = "concat (band_parts df 3 Senior)"
  and ?s4 = "concat (band_parts df 4 Unknown)"
  note fin = final_df_rows [OF assms(2)]
  have b0: "\<forall>p\<in>set (data_rows ?s0). age_band p = Adult"
    and b1: "\<forall>p\<in>set (data_rows ?s1). age_band p = Youth"
    and b2: "\<forall>p\<in>set (data_rows ?s2). age_band p = Child"
    and b3: "\<forall>p\<in>set (data_rows ?s3). age_band p = Senior"
    and b4: "\<forall>p\<in>set (data_rows ?s4). age_band p = Unknown"
    using data_rows_segment_band by blast+
  from assms(1) consider "i = 0 \<and> c = Adult" | "i = 1 \<and> c = Youth" | "i = 2 \<and> c = Child"
    | "i = 3 \<and> c = Senior" | "i = 4 \<and> c = Unknown"
    by (auto simp: category_order_def enumerate_eq_zip upt_rec numeral_eq_Suc)
  then show ?thesis
  proof cases
    case 1
    have "final_df df = Inr ([] @ ?s0 @ (?s1 @ ?s2 @ ?s3 @ ?s4))" using fin by simp
    moreover have "\<forall>p\<in>set (data_rows []) \<union> set (data_rows (?s1 @ ?s2 @ ?s3 @ ?s4)).
        age_band p \<noteq> Adult"
      using b1 b2 b3 b4 by (auto simp: data_rows_append)
    ultimately show ?thesis using 1 by blast
  next
    case 2
    have "final_df df = Inr (?s0 @ ?s1 @ (?s2 @ ?s3 @ ?s4))" using fin by simp
    moreover have "\<forall>p\<in>set (data_rows ?s0) \<union> set (data_rows (?s2 @ ?s3 @ ?s4)).
        age_band p \<noteq> Youth"
      using b0 b2 b3 b4 by (auto simp: data_rows_append)
    ultimately show ?thesis using 2 by blast
  next
    case 3
    have "final_df df = Inr ((?s0 @ ?s1) @ ?s2 @ (?s3 @ ?s4))" using fin by simp
    moreover have "\<forall>p\<in>set (data_rows (?s0 @ ?s1)) \<union> set (data_rows (?s3 @ ?s4)).
        age_band p \<noteq> Child"
      using b0 b1 b3 b4 by (auto simp: data_rows_append)
    ultimately show ?thesis using 3 by blast
  next
    case 4
    have "final_df df = Inr ((?s0 @ ?s1 @ ?s2) @ ?s3 @ ?s4)" using fin by simp
    moreover have "\<forall>p\<in>set (data_rows (?s0 @ ?s1 @ ?s2)) \<union> set (data_rows ?s4).
        age_band p \<noteq> Senior"
      using b0 b1 b2 b4 by (auto simp: data_rows_append)
    ultimately show ?thesis using 4 by blast
  next
    case 5
    have "final_df df = Inr ((?s0 @ ?s1 @ ?s2 @ ?s3) @ ?s4 @ [])" using fin by simp
    moreover have "\<forall>p\<in>set (data_rows (?s0 @ ?s1 @ ?s2 @ ?s3)) \<union> set (data_rows []).
        age_band p \<noteq> Unknown"
      using b0 b1 b2 b3 by (auto simp: data_rows_append)
    ultimately show ?thesis using 5 by blast
  qed
qed

section \<open>Blank rows\<close>




section \<open>Band order\<close>

text \<open>
  C7. The output is the concatenation of the rows of Adult, Youth, Child, Senior and
  Unknown, in this order; a band without records contributes nothing; the rows of a
  non-empty band start with the data rows of its records outside the sub-split window,
  followed by those inside it, each group in the order of the input, and no data row
  follows them.
\<close>

theorem final_df_band_order:
  "final_df df =
     (if df = [] then Inl NoObjectsToConcatenate
      else Inr (concat (band_parts df 0 Adult) @ concat (band_parts df 1 Youth)
                @ concat (band_parts df 2 Child) @ concat (band_parts df 3 Senior)
                @ concat (band_parts df 4 Unknown)))
   \<and> (\<forall>i c. (\<forall>r\<in>set df. age_band r \<noteq> c) \<longrightarrow> band_parts df i c = [])
   \<and> (\<forall>i c. (\<exists>r\<in>set df. age_band r = c) \<longrightarrow>
         (\<exists>tail. concat (band_parts df i c) =
              map DataRow (filter (\<lambda>r. age_band r = c \<and> \<not> spec_sub_window c (age r)) df)
              @ map DataRow (filter (\<lambda>r. age_band r = c \<and> spec_sub_window c (age r)) df)
              @ tail
            \<and> data_rows tail = []))"
proof (intro conjI allI impI)
  show "final_df df =
     (if df = [] then Inl NoObjectsToConcatenate
      else Inr (concat (band_parts df 0 Adult) @ concat (band_parts df 1 Youth)
                @ concat (band_parts df 2 Child) @ concat (band_parts df 3 Senior)
                @ concat (band_parts df 4 Unknown)))"
    by (simp add: final_df_def Let_def build_parts_Nil_iff) (simp add: build_parts_unfold)
next
  fix i :: nat and c :: band assume "\<forall>r\<in>set df. age_band r \<noteq> c"
  then show "band_parts df i c = []" by (simp add: band_parts_Nil_iff)
next
  fix i :: nat and c :: band assume ex: "\<exists>r\<in>set df. age_band r = c"
  let ?tail = "CountRow (length (filter (\<lambda>r. age_band r = c) df))
       # (if i < 4 then [BlankRow] else [])"
  have "concat (band_parts df i c) =
          map DataRow (filter (\<lambda>r. age_band r = c \<and> \<not> spec_sub_window c (age r)) df)
          @ map DataRow (filter (\<lambda>r. age_band r = c \<and> spec_sub_window c (age r)) df)
          @ ?tail"
    by (simp add: band_segment [OF ex] sub_condition_spec conj_commute)
  moreover have "data_rows ?tail = []" by simp
  ultimately show "\<exists>tail. concat (band_parts df i c) =
              map DataRow (filter (\<lambda>r. age_band r = c \<and> \<not> spec_sub_window c (age r)) df)
              @ map DataRow (filter (\<lambda>r. age_band r = c \<and> spec_sub_window c (age r)) df)
              @ tail
            \<and> data_rows tail = []"
    by blast
qed

theorem final_df_band_order_witness:
  "final_df [person_aged ''A'' 24, person_aged ''B'' 3, person_aged ''C'' 40, person_aged ''D'' 21, person_aged ''E'' 24] =
     Inr [DataRow (person_aged ''C'' 40), DataRow (person_aged ''A'' 24), DataRow (person_aged ''E'' 24), CountRow 3, BlankRow,
          DataRow (person_aged ''D'' 21), CountRow 1, BlankRow,
          DataRow (person_aged ''B'' 3), CountRow 1, BlankRow]
   \<and> band_parts [person_aged ''A'' 24, person_aged ''B'' 3, person_aged ''C'' 40, person_aged ''D'' 21, person_aged ''E'' 24] 3 Senior = []"
  using final_df_band_order [of "[person_aged ''A'' 24, person_aged ''B'' 3, person_aged ''C'' 40, person_aged ''D'' 21, person_aged ''E'' 24]"]
  by (simp add: person_defs ascii_def)

section \<open>Count rows\<close>

text \<open>
  C8. For every band of the iteration order that has records, the assembled output holds
  the rows of the band: the data rows of \<open>main\<close>, those of \<open>sub\<close>, and the count row,
  whose value is the size of \<open>main\<close> plus \<open>sub\<close>. That value is the number of data rows
  of the band in the whole output, since no data row before or after belongs to the band.
  \<open>main\<close> and \<open>sub\<close> are disjoint, and together they are the band's records, each as often
  as it occurs in the input.
\<close>

theorem count_row_counts_band:
  assumes "(i, c) \<in> set (enumerate 0 category_order)" and "\<exists>r\<in>set df. age_band r = c"
  shows "\<exists>rows before after main sub tail.
           final_df df = Inr rows
         \<and> rows = before @ concat (band_parts df i c) @ after
         \<and> concat (band_parts df i c)
             = map DataRow main @ map DataRow sub @ CountRow (length main + length sub) # tail
         \<and> data_rows tail = []
         \<and> (\<forall>p\<in>set (data_rows before) \<union> set (data_rows after). age_band p \<noteq> c)
         \<and> length (filter (\<lambda>p. age_band p = c) (data_rows rows)) = length main + length sub
         \<and> length (data_rows (concat (band_parts df i c))) = length main + length sub
         \<and> main = filter (\<lambda>r. \<not> sub_condition c r) (filter (\<lambda>r. age_band r = c) df)
         \<and> sub = filter (sub_condition c) (filter (\<lambda>r. age_band r = c) df)
         \<and> set main \<inter> set sub = {}
         \<and> mset main + mset sub = mset (filter (\<lambda>r. age_band r = c) df)"
proof -
  let ?cat = "filter (\<lambda>r. age_band r = c) df"
  let ?main = "filter (\<lambda>r. \<not> sub_condition c r) ?cat"
  let ?sub = "filter (sub_condition c) ?cat"
  let ?tail = "if i < 4 then [BlankRow] else []"
  let ?seg = "concat (band_parts df i c)"
  from assms(2) have ne: "df \<noteq> []" by auto
  from final_df_around_segment [OF assms(1) ne] obtain before after where
    fin: "final_df df = Inr (before @ ?seg @ after)"
    and other: "\<forall>p\<in>set (data_rows before) \<union> set (data_rows after). age_band p \<noteq> c"
    by blast
  have len: "length ?main + length ?sub = length ?cat"
    using sum_length_filter_compl [of "sub_condition c" ?cat] by simp
  have seg: "?seg
      = map DataRow ?main @ map DataRow ?sub @ CountRow (length ?main + length ?sub) # ?tail"
    using band_segment [OF assms(2), of i] len by simp
  have t: "data_rows ?tail = []" by simp
  have n: "length (data_rows ?seg) = length ?main + length ?sub"
    by (simp add: seg data_rows_append data_rows_map del: filter_filter)
  have fb: "filter (\<lambda>p. age_band p = c) (data_rows before) = []"
    and fa: "filter (\<lambda>p. age_band p = c) (data_rows after) = []"
    using other by (simp_all add: filter_empty_conv)
  have fs: "filter (\<lambda>p. age_band p = c) (data_rows ?seg) = data_rows ?seg"
    using data_rows_segment_band [of _ df i c] by (simp add: filter_id_conv)
  have cnt: "length (filter (\<lambda>p. age_band p = c) (data_rows (before @ ?seg @ after)))
      = length ?main + length ?sub"
    unfolding data_rows_append filter_append fb fa fs using n by simp
  have d: "set ?main \<inter> set ?sub = {}" by auto
  have m: "mset ?main + mset ?sub = mset ?cat"
    by (simp add: add.commute del: filter_filter)
  from fin seg t other cnt n d m show ?thesis by blast
qed

theorem count_row_counts_band_witness:
  "\<exists>rows. final_df [person_aged ''A'' 24, person_aged ''B'' 3, person_aged ''C'' 40] = Inr rows
     \<and> CountRow 2 \<in> set rows
     \<and> length (filter (\<lambda>p. age_band p = Adult) (data_rows rows)) = 2"
proof -
  let ?df = "[person_aged ''A'' 24, person_aged ''B'' 3, person_aged ''C'' 40]"
  have e: "(0, Adult) \<in> set (enumerate 0 category_order)"
    by (simp add: category_order_def enumerate_eq_zip upt_rec numeral_eq_Suc)
  have h: "\<exists>r\<in>set ?df. age_band r = Adult"
    by (simp add: person_aged_def age_category_def)
  from count_row_counts_band [OF e h] obtain rows before after main sub tail where
    fin: "final_df ?df = Inr rows"
    and rows: "rows = before @ concat (band_parts ?df 0 Adult) @ after"
    and seg: "concat (band_parts ?df 0 Adult)
       = map DataRow main @ map DataRow sub @ CountRow (length main + length sub) # tail"
    and cnt: "length (filter (\<lambda>p. age_band p = Adult) (data_rows rows))
       = length main + length sub"
    and c: "main = filter (\<lambda>r. \<not> sub_condition Adult r) (filter (\<lambda>r. age_band r = Adult) ?df)"
    and d: "sub = filter (sub_condition Adult) (filter (\<lambda>r. age_band r = Adult) ?df)"
    by blast
  have c': "length main = 1"
    unfolding c by (simp add: person_aged_def age_category_def sub_condition_def)
  have d': "length sub = 1"
    unfolding d by (simp add: person_aged_def age_category_def sub_condition_def)
  have "CountRow 2 \<in> set rows" unfolding rows seg using c' d' by simp
  moreover have "length (filter (\<lambda>p. age_band p = Adult) (data_rows rows)) = 2"
    using cnt c' d' by simp
  ultimately show ?thesis using fin by blast
qed

section \<open>Highlighting\<close>

text \<open>
  C10. Count rows and blank rows are never coloured. For the data row of an extracted
  record the colour stands for the class the specification's \<open>highlight\<close> gives its band
  and age when the name is not empty, and the row is not coloured otherwise: yellow
  (CareFlag) for Child and Senior, green (TransitionA) exactly for Adult records in the
  Adult sub-split, blue (TransitionB) exactly for Youth records in the Youth sub-split.
  The sub-split predicate of the assembler holds exactly where \<open>highlight\<close> gives
  TransitionA or TransitionB.
\<close>

theorem fill_matches_highlight:
  assumes "r = base_row upper today cells"
  shows "row_fill (CountRow n) = None \<and> row_fill BlankRow = None
     \<and> fill_class (row_fill (DataRow r))
         = (if name r = [] then NoHighlight else spec_highlight (age_band r) (age r))
     \<and> (row_fill (DataRow r) = Some Yellow)
         = (name r \<noteq> [] \<and> (age_band r = Child \<or> age_band r = Senior))
     \<and> (row_fill (DataRow r) = Some Green)
         = (name r \<noteq> [] \<and> age_band r = Adult \<and> sub_condition Adult r)
     \<and> (row_fill (DataRow r) = Some Blue)
         = (name r \<noteq> [] \<and> age_band r = Youth \<and> sub_condition Youth r)
     \<and> sub_condition (age_band r) r
         = (spec_highlight (age_band r) (age r) = TransitionA
            \<or> spec_highlight (age_band r) (age r) = TransitionB)"
proof -
  have s: "strip (name r) = name r"
    unfolding assms by (cases cells) (simp add: base_row_def Let_def strip_idem)
  have f: "row_fill (DataRow r) = fill_of (name r) (age r) (Some (age_band r))"
    by (simp add: row_fill_def name_cell_def age_cell_def cat_cell_def)
  have 1: "row_fill (CountRow n) = None" "row_fill BlankRow = None"
    by (simp_all add: row_fill_def fill_of_def cat_cell_def)
  have 2: "fill_class (row_fill (DataRow r))
         = (if name r = [] then NoHighlight else spec_highlight (age_band r) (age r))"
    unfolding f
    by (cases "age_band r"; cases "age r")
       (simp_all add: fill_of_def s fill_class_def spec_highlight_def)
  have 3: "(row_fill (DataRow r) = Some Yellow)
         = (name r \<noteq> [] \<and> (age_band r = Child \<or> age_band r = Senior))"
    unfolding f by (cases "age_band r"; cases "age r") (simp_all add: fill_of_def s)
  have 4: "(row_fill (DataRow r) = Some Green)
         = (name r \<noteq> [] \<and> age_band r = Adult \<and> sub_condition Adult r)"
    unfolding f
    by (cases "age_band r"; cases "age r") (simp_all add: fill_of_def s sub_condition_def)
  have 5: "(row_fill (DataRow r) = Some Blue)
         = (name r \<noteq> [] \<and> age_band r = Youth \<and> sub_condition Youth r)"
    unfolding f
    by (cases "age_band r"; cases "age r") (simp_all add: fill_of_def s sub_condition_def)
  have 6: "sub_condition (age_band r) r
         = (spec_highlight (age_band r) (age r) = TransitionA
            \<or> spec_highlight (age_band r) (age r) = TransitionB)"
    by (cases "age_band r"; cases "age r") (simp_all add: spec_highlight_def sub_condition_def)
  from 1 2 3 4 5 6 show ?thesis by blast
qed

theorem fill_matches_highlight_witness:
  "row_fill (DataRow (base_row upper_ascii \<lparr>year = 2026, month = 11, day = 3\<rparr>
      (Some (ascii '' Li ''), Some (ascii ''tel 13912345678''),
       Some (ascii ''11010120030101123x'')))) = Some Green
   \<and> sub_condition Adult (base_row upper_ascii \<lparr>year = 2026, month = 11, day = 3\<rparr>
      (Some (ascii '' Li ''), Some (ascii ''tel 13912345678''),
       Some (ascii ''11010120030101123x'')))"
  using fill_matches_highlight [OF refl, of 0 upper_ascii "\<lparr>year = 2026, month = 11, day = 3\<rparr>"
      "(Some (ascii '' Li ''), Some (ascii ''tel 13912345678''),
        Some (ascii ''11010120030101123x''))"]
  by (simp add: base_row_example spec_highlight_def fill_class_def split: option.splits fill.splits)
     (simp add: ascii_def)

section \<open>Phone numbers\<close>

text \<open>
  C3, as the claim states it, fails: a run of more than 11 digits that embeds the pattern
  qualifies. An 18-digit ID number with a birth year 19xx is one run of 18 digits; the
  detection predicate holds for it and \<open>clean_phone\<close> returns 11 of its digits.
\<close>

theorem clean_phone_long_digit_run:
  "length (ascii ''110101199001011234'') = 18
   \<and> list_all is_digit (ascii ''110101199001011234'')
   \<and> has_phone (ascii ''110101199001011234'')
   \<and> clean_phone (ascii ''110101199001011234'') = ascii ''19900101123''"
  by (simp add: text_defs re_defs clean_phone_def has_phone_def)

text \<open>
  C3, amended. \<open>clean_phone\<close> and the detection predicate succeed exactly when the value
  has 11 consecutive characters that form a phone number (digits, the first 1, the second
  in 3..9), whatever stands next to them; \<open>clean_phone\<close> then returns the leftmost such 11
  characters, and the empty string when there are none.
\<close>

theorem clean_phone_leftmost_match:
  "has_phone s = (\<exists>i. phone_number (take 11 (drop i s)))
   \<and> (clean_phone s \<noteq> []) = has_phone s
   \<and> (\<forall>i. phone_number (take 11 (drop i s)) \<and> (\<forall>j<i. \<not> phone_number (take 11 (drop j s)))
          \<longrightarrow> clean_phone s = take 11 (drop i s))"
proof (intro conjI allI impI)
  show a: "has_phone s = (\<exists>i. phone_number (take 11 (drop i s)))"
    by (simp only: has_phone_def re_search_phone_iff)
  show "(clean_phone s \<noteq> []) = has_phone s"
  proof (cases "\<exists>i. phone_number (take 11 (drop i s))")
    case True
    then obtain i where i: "phone_number (take 11 (drop i s))"
      and "\<forall>j<i. \<not> phone_number (take 11 (drop j s))"
      using exists_least_iff [of "\<lambda>i. phone_number (take 11 (drop i s))"] by blast
    then have "re_search phone_re s = Some (take 11 (drop i s))" by (rule re_search_phone_first)
    then have "clean_phone s = take 11 (drop i s)" by (simp add: clean_phone_search)
    moreover from i have "take 11 (drop i s) \<noteq> []" by (auto simp: phone_number_def)
    ultimately show ?thesis using True a by simp
  next
    case False
    then have "re_search phone_re s = None" using re_search_phone_iff [of s] by simp
    then have "clean_phone s = []" by (simp add: clean_phone_search)
    with False a show ?thesis by simp
  qed
next
  fix i assume "phone_number (take 11 (drop i s)) \<and> (\<forall>j<i. \<not> phone_number (take 11 (drop j s)))"
  then have "re_search phone_re s = Some (take 11 (drop i s))"
    by (intro re_search_phone_first) simp_all
  then show "clean_phone s = take 11 (drop i s)" by (simp add: clean_phone_search)
qed

lemma all_less_4: "(\<forall>j<4. P j) = (P 0 \<and> P 1 \<and> P 2 \<and> P (3::nat))"
proof -
  have "\<And>j::nat. (j < 4) = (j = 0 \<or> j = 1 \<or> j = 2 \<or> j = 3)" by arith
  then show ?thesis by auto
qed

theorem clean_phone_leftmost_match_witness:
  "clean_phone (ascii ''tel 13912345678901'') = ascii ''13912345678''
   \<and> has_phone (ascii ''tel 13912345678901'')"
proof -
  let ?s = "ascii ''tel 13912345678901''"
  have p: "phone_number (take 11 (drop 4 ?s))"
    by (simp add: phone_number_def text_defs)
  have q: "\<forall>j<4. \<not> phone_number (take 11 (drop j ?s))"
    unfolding all_less_4 by (simp add: phone_number_def text_defs)
  from clean_phone_leftmost_match [of ?s] p q
  have "clean_phone ?s = take 11 (drop 4 ?s)" and "has_phone ?s" by blast+
  then show ?thesis by (simp add: ascii_def)
qed

section \<open>Names\<close>

text \<open>
  C4, as the claim states it, fails: the sampled value is matched as it stands, without
  trimming. Two ideographs between spaces are a name after trimming; the predicate
  rejects the value and the column's name score stays 0.
\<close>

theorem name_with_whitespace_not_counted:
  "ideographs_2_4 (strip [32, 24352, 19977, 32])
   \<and> \<not> is_name [32, 24352, 19977, 32]
   \<and> name_score (column_scores [Some [32, 24352, 19977, 32]]) = 0"
  by (simp add: text_defs re_defs ideographs_2_4_def is_name_def column_scores_def sample_def
      List.map_filter_def)

lemma rep_m_class_full:
  assumes f: "\<And>s. f s = (case s of [] \<Rightarrow> [] | c # t \<Rightarrow> if p c then [t] else [])"
  shows "([] \<in> set (rep_m f m n s)) = (m \<le> length s \<and> length s \<le> n \<and> list_all p s)"
proof (induction n arbitrary: m s)
  case 0 show ?case by auto
next
  case (Suc n)
  show ?case
  proof (cases s)
    case Nil
    have "f [] = []" by (subst f) simp
    with Nil show ?thesis by simp
  next
    case (Cons a t)
    have "f (a # t) = (if p a then [t] else [])" by (subst f) simp
    with Cons show ?thesis by (cases "p a") (auto simp: Suc)
  qed
qed

lemma is_name_iff: "is_name v = ideographs_2_4 v"
  unfolding is_name_def re_fullmatch_def name_re_def rmatch.simps(4) ideographs_2_4_def
  by (rule rep_m_class_full) simp

lemma whitespace_not_ideographs: "list_all (\<lambda>c. c < 19968) whitespace"
  by (simp add: whitespace_def)

lemma strip_changes:
  assumes "v \<noteq> strip v"
  shows "v \<noteq> [] \<and> (py_isspace (hd v) \<or> py_isspace (last v))"
  using assms strip_fixed [of v] by metis

text \<open>
  C4, amended. The name predicate holds exactly when the whole value, untrimmed, is 2 to 4
  characters of the range U+4E00..U+9FA5; a value that trimming would change does not
  satisfy it; and the name score of a column is the fraction of its sampled values that
  satisfy it.
\<close>

theorem name_predicate_untrimmed:
  "is_name v = ideographs_2_4 v
   \<and> (v \<noteq> strip v \<longrightarrow> \<not> is_name v)
   \<and> (sample col \<noteq> [] \<longrightarrow>
        name_score (column_scores col)
          = of_nat (length (filter ideographs_2_4 (sample col))) / of_nat (length (sample col)))"
proof (intro conjI impI)
  show "is_name v = ideographs_2_4 v" by (rule is_name_iff)
next
  assume "v \<noteq> strip v"
  from strip_changes [OF this] obtain c where c: "c \<in> set v" "py_isspace c"
    by (metis hd_in_set last_in_set)
  from c(2) whitespace_not_ideographs have "c < 19968"
    by (simp add: py_isspace_def list_all_iff)
  with c(1) have "\<not> list_all (\<lambda>c. 19968 \<le> c \<and> c \<le> 40869) v"
    unfolding list_all_iff by (metis not_le)
  then have "\<not> ideographs_2_4 v" by (simp add: ideographs_2_4_def)
  then show "\<not> is_name v" by (simp add: is_name_iff)
next
  assume "sample col \<noteq> []"
  then show "name_score (column_scores col)
          = of_nat (length (filter ideographs_2_4 (sample col))) / of_nat (length (sample col))"
    by (simp add: column_scores_def Let_def is_name_iff [abs_def])
qed

theorem name_predicate_untrimmed_witness:
  "is_name [24352, 19977] \<and> \<not> is_name [24352, 19977, 32]
   \<and> name_score (column_scores [Some [24352, 19977], None, Some [24352, 19977, 32]]) = 1 / 2"
proof -
  have a: "[24352, 19977, 32] \<noteq> strip [24352, 19977, 32]" by (simp add: text_defs)
  have b: "sample [Some [24352, 19977], None, Some [24352, 19977, 32]] \<noteq> []"
    by (simp add: sample_def List.map_filter_def)
  have c: "ideographs_2_4 [24352, 19977]" by (simp add: ideographs_2_4_def)
  from name_predicate_untrimmed [of "[24352, 19977]"] c have 1: "is_name [24352, 19977]" by simp
  from name_predicate_untrimmed [of "[24352, 19977, 32]"] a have 2: "\<not> is_name [24352, 19977, 32]"
    by blast
  from name_predicate_untrimmed [of _ "[Some [24352, 19977], None, Some [24352, 19977, 32]]"] b
  have 3: "name_score (column_scores [Some [24352, 19977], None, Some [24352, 19977, 32]]) = 1 / 2"
    by (simp add: sample_def List.map_filter_def ideographs_2_4_def)
  from 1 2 3 show ?thesis by simp
qed

section \<open>Ages\<close>

text \<open>
  C5, as the claim states it, fails in its first part: the age is not always non-negative.
  The ID pattern admits birth years up to 2099; for a valid ID string with the birth date
  2099-12-31 and the current date 2026-11-03 the computed age is -74.
\<close>

theorem age_negative_for_future_birth:
  "valid_id (ascii ''110101209912311234'')
   \<and> birth_date (ascii ''110101209912311234'') = (2099, 12, 31)
   \<and> valid_date 2099 12 31
   \<and> calculate_age \<lparr>year = 2026, month = 11, day = 3\<rparr> (ascii ''110101209912311234'') = Some (- 74)"
  by (simp add: valid_id_def birth_date_def text_defs re_defs age_defs)

text \<open>
  C5, amended. For a valid ID string whose birth substring is a calendar date, and any
  current date, the age is the difference of the years, less 1 exactly when (current
  month, current day) is lexicographically before (birth month, birth day); so it is
  within 1 of the difference of the years. It is non-negative exactly when the birth date
  is not after the current date.
\<close>

theorem age_from_valid_id:
  assumes "valid_id idn" and "birth_date idn = (y0, m0, d0)" and "valid_date y0 m0 d0"
  shows "\<exists>a. calculate_age today idn = Some a
     \<and> a = year today - y0 - (if before (month today, day today) (m0, d0) then 1 else 0)
     \<and> (a = year today - y0 - 1) = before (month today, day today) (m0, d0)
     \<and> (a = year today - y0) = (\<not> before (month today, day today) (m0, d0))
     \<and> \<bar>a - (year today - y0)\<bar> \<le> 1
     \<and> (0 \<le> a) = (y0 < year today
                   \<or> (y0 = year today \<and> \<not> before (month today, day today) (m0, d0)))"
  using assms by (auto simp: calculate_age_valid)

theorem age_from_valid_id_witness:
  "calculate_age \<lparr>year = 2026, month = 11, day = 3\<rparr> (ascii ''110101199012011234'') = Some 35"
proof -
  let ?x = "ascii ''110101199012011234''"
  have v: "valid_id ?x" by (simp add: valid_id_def text_defs re_defs)
  have b: "birth_date ?x = (1990, 12, 1)" by (simp add: birth_date_def number_def text_defs)
  have d: "valid_date 1990 12 1" by (simp add: valid_date_def days_in_month_def)
  from age_from_valid_id [OF v b d, of "\<lparr>year = 2026, month = 11, day = 3\<rparr>"]
  show ?thesis by (simp add: before_def)
qed

section \<open>Age bands\<close>

text \<open>
  C6. The band of an extracted record is the category of its age: Unknown without an
  age, Child below 7, Youth from 7 below 23, Adult from 23 below 60, Senior from 60. The
  age is missing exactly when the extracted ID number is empty or its birth substring is
  not a calendar date. Every record is in one band, and the band is one of the five of
  the iteration order, each listed once.
\<close>

theorem age_band_of_record:
  assumes "r = base_row upper today cells"
  shows "age_band r = age_category (age r)
     \<and> age_category None = Unknown
     \<and> (\<forall>a. (a < 7 \<longrightarrow> age_category (Some a) = Child)
           \<and> (7 \<le> a \<and> a < 23 \<longrightarrow> age_category (Some a) = Youth)
           \<and> (23 \<le> a \<and> a < 60 \<longrightarrow> age_category (Some a) = Adult)
           \<and> (60 \<le> a \<longrightarrow> age_category (Some a) = Senior))
     \<and> (age r = None)
         = (id_number r = [] \<or> \<not> (case birth_date (id_number r) of (y, m, d) \<Rightarrow> valid_date y m d))
     \<and> age_band r \<in> set category_order \<and> distinct category_order"
proof -
  obtain n p i where cells: "cells = (n, p, i)" by (cases cells)
  let ?id = "clean_id upper (replace_nan (astype_str i))"
  from assms cells have idn: "id_number r = ?id" and ag: "age r = calculate_age today ?id"
    and bd: "age_band r = age_category (age r)"
    by (simp_all add: base_row_def Let_def)
  have "(calculate_age today ?id = None)
        = (?id = [] \<or> \<not> (case birth_date ?id of (y, m, d) \<Rightarrow> valid_date y m d))"
  proof (cases "?id = []")
    case True then show ?thesis by (simp add: calculate_age_def)
  next
    case False
    with clean_id_valid [of upper "replace_nan (astype_str i)"] have "valid_id ?id" by simp
    from calculate_age_valid [OF this, of today] False show ?thesis
      by (simp split: prod.splits)
  qed
  moreover have "age_band r \<in> set category_order"
    by (cases "age_band r") (simp_all add: category_order_def)
  moreover have "distinct category_order" by (simp add: category_order_def)
  ultimately show ?thesis using bd idn ag by (simp add: age_category_def)
qed

theorem age_band_of_record_witness:
  "age_band (base_row upper_ascii \<lparr>year = 2026, month = 11, day = 3\<rparr>
      (Some (ascii '' Li ''), Some (ascii ''tel 13912345678''), Some (ascii ''11010120030101123x''))) = Adult
   \<and> age_category (Some 6) = Child \<and> age_category (Some 7) = Youth
   \<and> age_category (Some 23) = Adult \<and> age_category (Some 60) = Senior
   \<and> age (base_row upper_ascii \<lparr>year = 2026, month = 11, day = 3\<rparr>
      (Some (ascii ''Wu''), None, Some (ascii ''110101200302301234''))) = None"
proof -
  let ?t = "\<lparr>year = 2026, month = 11, day = 3\<rparr>"
  let ?c1 = "(Some (ascii '' Li ''), Some (ascii ''tel 13912345678''), Some (ascii ''11010120030101123x''))"
  let ?c2 = "(Some (ascii ''Wu''), None, Some (ascii ''110101200302301234''))"
  have i2: "id_number (base_row upper_ascii ?t ?c2) = ascii ''110101200302301234''"
    by (simp add: text_defs re_defs age_defs Let_def)
  have b2: "birth_date (ascii ''110101200302301234'') = (2003, 2, 30)"
    by (simp add: birth_date_def number_def text_defs)
  have v2: "\<not> valid_date 2003 2 30" by (simp add: valid_date_def days_in_month_def is_leap_def)
  from age_band_of_record [OF refl, of upper_ascii ?t ?c1]
  have "age_band (base_row upper_ascii ?t ?c1) = Adult
     \<and> age_category (Some 6) = Child \<and> age_category (Some 7) = Youth
     \<and> age_category (Some 23) = Adult \<and> age_category (Some 60) = Senior"
    by (simp add: base_row_example)
  moreover from age_band_of_record [OF refl, of upper_ascii ?t ?c2] i2 b2 v2
  have "age (base_row upper_ascii ?t ?c2) = None"
    by (simp add: ascii_def)
  ultimately show ?thesis by blast
qed

end
